theory Spec2Isabelle
  imports Complex_Main "HOL-Library.Log_Nat"
begin

section \<open>JavaScript numbers and arrays\<close>

text \<open>
  The routines of \<^verbatim>\<open>RiskAnalysis.js\<close> and of the technical-analysis page compute with
  JavaScript numbers. A value is a finite number, one of the two infinities, \<open>NaN\<close>, or
  \<open>undefined\<close> (what a read outside an array yields). A finite number is a real (a
  binary64 number is one). The operations come in two layers. The first layer, below, is
  the exact result of each operation on these values, with every special case written out
  (\<open>0 / 0\<close>, \<open>Infinity - Infinity\<close>, \<open>0 * Infinity\<close>, comparison with \<open>NaN\<close>,
  truthiness). The second layer, in the next section, rounds the exact result to binary64
  as the language does. The sign of zero is left out, so a division of a nonzero number
  by zero gives the infinity with the sign of the numerator.

  \<open>calculateVaR\<close>, \<open>calculateCVaR\<close>, \<open>calculateSharpeRatio\<close>, \<open>calculateRSI\<close> and
  \<open>calculateBollingerBands\<close> are embedded over the rounded operations.
  \<open>calculateMaxDrawdown\<close>, \<open>calculateCorrelation\<close>, \<open>calculateEMA\<close> and
  \<open>calculateMACD\<close> are embedded over the exact operations: their theorems are about the
  formulas that the code evaluates, each operation taken exactly.
\<close>

datatype jsval = Num real | PosInf | NegInf | NaN | Undefined

fun jadd :: "jsval \<Rightarrow> jsval \<Rightarrow> jsval" where
  "jadd (Num a) (Num b) = Num (a + b)"
| "jadd (Num a) PosInf = PosInf"
| "jadd (Num a) NegInf = NegInf"
| "jadd PosInf (Num b) = PosInf"
| "jadd PosInf PosInf = PosInf"
| "jadd NegInf (Num b) = NegInf"
| "jadd NegInf NegInf = NegInf"
| "jadd _ _ = NaN"

fun jneg :: "jsval \<Rightarrow> jsval" where
  "jneg (Num a) = Num (- a)"
| "jneg PosInf = NegInf"
| "jneg NegInf = PosInf"
| "jneg _ = NaN"

definition jsub :: "jsval \<Rightarrow> jsval \<Rightarrow> jsval" where
  "jsub a b = jadd a (jneg b)"

fun jmul :: "jsval \<Rightarrow> jsval \<Rightarrow> jsval" where
  "jmul (Num a) (Num b) = Num (a * b)"
| "jmul (Num a) PosInf = (if 0 < a then PosInf else if a < 0 then NegInf else NaN)"
| "jmul (Num a) NegInf = (if 0 < a then NegInf else if a < 0 then PosInf else NaN)"
| "jmul PosInf (Num b) = (if 0 < b then PosInf else if b < 0 then NegInf else NaN)"
| "jmul NegInf (Num b) = (if 0 < b then NegInf else if b < 0 then PosInf else NaN)"
| "jmul PosInf PosInf = PosInf"
| "jmul PosInf NegInf = NegInf"
| "jmul NegInf PosInf = NegInf"
| "jmul NegInf NegInf = PosInf"
| "jmul _ _ = NaN"

fun jdiv :: "jsval \<Rightarrow> jsval \<Rightarrow> jsval" where
  "jdiv (Num a) (Num b) =
     (if b \<noteq> 0 then Num (a / b)
      else if 0 < a then PosInf else if a < 0 then NegInf else NaN)"
| "jdiv (Num a) PosInf = Num 0"
| "jdiv (Num a) NegInf = Num 0"
| "jdiv PosInf (Num b) = (if 0 \<le> b then PosInf else NegInf)"
| "jdiv NegInf (Num b) = (if 0 \<le> b then NegInf else PosInf)"
| "jdiv _ _ = NaN"

text \<open>\<^verbatim>\<open>Math.abs\<close>, \<^verbatim>\<open>Math.sqrt\<close> and \<^verbatim>\<open>Math.pow(x, 2)\<close>.\<close>

fun jabs :: "jsval \<Rightarrow> jsval" where
  "jabs (Num a) = Num \<bar>a\<bar>"
| "jabs PosInf = PosInf"
| "jabs NegInf = PosInf"
| "jabs _ = NaN"

fun jsqrt :: "jsval \<Rightarrow> jsval" where
  "jsqrt (Num a) = (if 0 \<le> a then Num (sqrt a) else NaN)"
| "jsqrt PosInf = PosInf"
| "jsqrt _ = NaN"

fun jpow2 :: "jsval \<Rightarrow> jsval" where
  "jpow2 (Num a) = Num (a * a)"
| "jpow2 PosInf = PosInf"
| "jpow2 NegInf = PosInf"
| "jpow2 _ = NaN"

text \<open>The comparisons \<^verbatim>\<open>a > b\<close>, \<^verbatim>\<open>a < b\<close> and \<^verbatim>\<open>a === b\<close>: false whenever an operand
  is \<open>NaN\<close>; \<open>undefined\<close> compares as \<open>NaN\<close> under \<open><\<close> and \<open>>\<close>.\<close>

fun jlt :: "jsval \<Rightarrow> jsval \<Rightarrow> bool" where
  "jlt (Num a) (Num b) = (a < b)"
| "jlt (Num a) PosInf = True"
| "jlt NegInf (Num b) = True"
| "jlt NegInf PosInf = True"
| "jlt _ _ = False"

definition jgt :: "jsval \<Rightarrow> jsval \<Rightarrow> bool" where
  "jgt a b = jlt b a"

fun jseq :: "jsval \<Rightarrow> jsval \<Rightarrow> bool" where
  "jseq NaN _ = False"
| "jseq _ NaN = False"
| "jseq a b = (a = b)"

text \<open>Truthiness and \<^verbatim>\<open>a || b\<close>: \<open>0\<close>, \<open>NaN\<close> and \<open>undefined\<close> are falsy.\<close>

fun truthy :: "jsval \<Rightarrow> bool" where
  "truthy (Num a) = (a \<noteq> 0)"
| "truthy PosInf = True"
| "truthy NegInf = True"
| "truthy _ = False"

definition jor :: "jsval \<Rightarrow> jsval \<Rightarrow> jsval" where
  "jor a b = (if truthy a then a else b)"

text \<open>An array read \<^verbatim>\<open>xs[i]\<close>: \<open>undefined\<close> outside the array.\<close>

definition js_index :: "jsval list \<Rightarrow> int \<Rightarrow> jsval" where
  "js_index xs i = (if 0 \<le> i \<and> i < int (length xs) then xs ! nat i else Undefined)"

text \<open>\<^verbatim>\<open>xs.slice(s, e)\<close>: a negative bound counts from the end, both bounds are clamped
  to the array, and the result is empty when the end is not after the start.\<close>

definition js_slice :: "'a list \<Rightarrow> int \<Rightarrow> int \<Rightarrow> 'a list" where
  "js_slice xs s e =
     (let n = int (length xs);
          k = (if s < 0 then max (n + s) 0 else min s n);
          f = (if e < 0 then max (n + e) 0 else min e n)
      in take (nat (f - k)) (drop (nat k) xs))"

text \<open>\<^verbatim>\<open>xs.reduce((a, b) => a + b, 0)\<close>: a left fold from \<open>0\<close>.\<close>

definition js_sum :: "jsval list \<Rightarrow> jsval" where
  "js_sum xs = foldl jadd (Num 0) xs"

text \<open>\<^verbatim>\<open>[...returns].sort((a, b) => a - b)\<close>: a sorted copy. The order that a comparator
  sort gives is fixed by the language only when the comparator is consistent, which
  \<open>a - b\<close> is on finite numbers; so the returns are taken as finite numbers.\<close>

definition js_sorted_copy :: "real list \<Rightarrow> jsval list" where
  "js_sorted_copy returns = map Num (sort returns)"

section \<open>Binary64 arithmetic\<close>

text \<open>
  A JavaScript number is a binary64 floating-point number, and \<^verbatim>\<open>+\<close>, \<^verbatim>\<open>-\<close>, \<^verbatim>\<open>*\<close>,
  \<^verbatim>\<open>/\<close> and \<^verbatim>\<open>Math.sqrt\<close> return the exact result rounded to the nearest such number,
  ties to the even significand. A finite binary64 number is \<open>m * 2\<^sup>e\<^sup>-\<^sup>5\<^sup>2\<close> with an integer
  \<open>\<bar>m\<bar> < 2\<^sup>5\<^sup>3\<close> and \<open>-1022 \<le> e \<le> 1023\<close>; a result that rounds to \<open>2\<^sup>1\<^sup>0\<^sup>2\<^sup>4\<close> or more
  overflows to the infinity of its sign, and below \<open>2\<^sup>-\<^sup>1\<^sup>0\<^sup>2\<^sup>2\<close> the spacing stays
  \<open>2\<^sup>-\<^sup>1\<^sup>0\<^sup>7\<^sup>4\<close> (gradual underflow, down to zero).
\<close>

definition pow2 :: "int \<Rightarrow> real" where
  "pow2 e = (if 0 \<le> e then 2 ^ nat e else 1 / 2 ^ nat (- e))"

text \<open>Rounding a real to the nearest integer, a tie to the even one.\<close>

definition round_half_even :: "real \<Rightarrow> int" where
  "round_half_even x =
     (let f = \<lfloor>x\<rfloor>
      in if x - of_int f < 1 / 2 then f
         else if 1 / 2 < x - of_int f then f + 1
         else if even f then f else f + 1)"

text \<open>The exponent \<open>e\<close> of a positive real \<open>a\<close>: \<open>2\<^sup>e \<le> a < 2\<^sup>e\<^sup>+\<^sup>1\<close>, and \<open>-1022\<close> for the
  subnormal range.\<close>

definition double_exponent :: "real \<Rightarrow> int" where
  "double_exponent a =
     max (- 1022) (if 1 \<le> a then bitlen \<lfloor>a\<rfloor> - 1 else - bitlen (\<lceil>1 / a\<rceil> - 1))"

text \<open>The real rounded to a multiple of the spacing \<open>2\<^sup>e\<^sup>-\<^sup>5\<^sup>2\<close> at its exponent.\<close>

definition rounded :: "real \<Rightarrow> real" where
  "rounded x =
     (if x = 0 then 0
      else let ulp = pow2 (double_exponent \<bar>x\<bar> - 52);
               r = of_int (round_half_even (\<bar>x\<bar> / ulp)) * ulp
           in if 0 < x then r else - r)"

text \<open>The JavaScript number that an exact real result becomes.\<close>

definition to_double :: "real \<Rightarrow> jsval" where
  "to_double x =
     (if pow2 1024 \<le> \<bar>rounded x\<bar> then (if 0 < x then PosInf else NegInf)
      else Num (rounded x))"

text \<open>A real is a binary64 number when rounding leaves it as it is.\<close>

definition is_double :: "real \<Rightarrow> bool" where
  "is_double x = (to_double x = Num x)"

text \<open>The rounding of a positive real, used in the proofs about \<open>rounded\<close>.\<close>

definition round_abs :: "real \<Rightarrow> real" where
  "round_abs a =
     of_int (round_half_even (a / pow2 (double_exponent a - 52))) * pow2 (double_exponent a - 52)"

text \<open>The rounded operations: the exact result, rounded when it is a finite number.
  \<^verbatim>\<open>Math.pow(x, 2)\<close> is taken as the rounded square.\<close>

definition dbl :: "jsval \<Rightarrow> jsval" where
  "dbl v = (case v of Num a \<Rightarrow> to_double a | _ \<Rightarrow> v)"

definition dadd :: "jsval \<Rightarrow> jsval \<Rightarrow> jsval" where
  "dadd a b = dbl (jadd a b)"

definition dsub :: "jsval \<Rightarrow> jsval \<Rightarrow> jsval" where
  "dsub a b = dbl (jsub a b)"

definition dmul :: "jsval \<Rightarrow> jsval \<Rightarrow> jsval" where
  "dmul a b = dbl (jmul a b)"

definition ddiv :: "jsval \<Rightarrow> jsval \<Rightarrow> jsval" where
  "ddiv a b = dbl (jdiv a b)"

definition dsqrt :: "jsval \<Rightarrow> jsval" where
  "dsqrt a = dbl (jsqrt a)"

definition dpow2 :: "jsval \<Rightarrow> jsval" where
  "dpow2 a = dbl (jpow2 a)"

text \<open>\<^verbatim>\<open>xs.reduce((a, b) => a + b, 0)\<close> with the rounded addition.\<close>

definition dsum :: "jsval list \<Rightarrow> jsval" where
  "dsum xs = foldl dadd (Num 0) xs"

text \<open>\<^verbatim>\<open>Math.floor\<close>.\<close>

fun js_floor :: "jsval \<Rightarrow> jsval" where
  "js_floor (Num a) = Num (of_int \<lfloor>a\<rfloor>)"
| "js_floor PosInf = PosInf"
| "js_floor NegInf = NegInf"
| "js_floor _ = NaN"

text \<open>An array read \<^verbatim>\<open>xs[v]\<close> at a computed number \<open>v\<close>: the element when \<open>v\<close> is an index
  of the array, \<open>undefined\<close> otherwise (also for a fraction, an infinity or \<open>NaN\<close>).\<close>

fun js_get :: "jsval list \<Rightarrow> jsval \<Rightarrow> jsval" where
  "js_get xs (Num a) = (if a = of_int \<lfloor>a\<rfloor> then js_index xs \<lfloor>a\<rfloor> else Undefined)"
| "js_get xs _ = Undefined"

text \<open>\<^verbatim>\<open>xs.slice(s, v)\<close> with a computed end \<open>v\<close>: \<^verbatim>\<open>slice\<close> truncates a finite end to an
  integer, takes \<open>NaN\<close> as 0, clamps an infinity to the array, and takes \<open>undefined\<close> as
  the length.\<close>

fun js_slice_to :: "'a list \<Rightarrow> int \<Rightarrow> jsval \<Rightarrow> 'a list" where
  "js_slice_to xs s (Num a) = js_slice xs s (if 0 \<le> a then \<lfloor>a\<rfloor> else \<lceil>a\<rceil>)"
| "js_slice_to xs s PosInf = js_slice xs s (int (length xs))"
| "js_slice_to xs s NegInf = js_slice xs s 0"
| "js_slice_to xs s NaN = js_slice xs s 0"
| "js_slice_to xs s Undefined = js_slice xs s (int (length xs))"

section \<open>Risk metrics (RiskAnalysis.js)\<close>

text \<open>The scalar arguments (\<open>confidence\<close>, \<open>riskFreeRate\<close>, and \<open>stdDev\<close> below) are
  finite numbers.\<close>

definition calculateVaR :: "real list \<Rightarrow> real \<Rightarrow> jsval" where
  "calculateVaR returns confidence =
     (if length returns = 0 then Num 0
      else let sortedReturns = js_sorted_copy returns;
               index = js_floor (dmul (Num confidence) (Num (real (length sortedReturns))))
           in jabs (jor (js_get sortedReturns index) (Num 0)))"

definition calculateCVaR :: "real list \<Rightarrow> real \<Rightarrow> jsval" where
  "calculateCVaR returns confidence =
     (if length returns = 0 then Num 0
      else let sortedReturns = js_sorted_copy returns;
               varIndex = js_floor (dmul (Num confidence) (Num (real (length sortedReturns))));
               tailReturns = js_slice_to sortedReturns 0 varIndex
           in jabs (jor (ddiv (dsum tailReturns) (Num (real (length tailReturns)))) (Num 0)))"

text \<open>A counting loop \<^verbatim>\<open>for (let i = a; i < b; i++) body\<close> over a loop state: the body is
  run for \<open>i = a, a + 1, \<dots>, b - 1\<close> in this order.\<close>

definition js_for :: "nat \<Rightarrow> nat \<Rightarrow> (nat \<Rightarrow> 's \<Rightarrow> 's) \<Rightarrow> 's \<Rightarrow> 's" where
  "js_for a b body s = fold body [a..<b] s"

text \<open>A read \<^verbatim>\<open>xs[i]\<close> at a loop index.\<close>

definition js_at :: "jsval list \<Rightarrow> nat \<Rightarrow> jsval" where
  "js_at xs i = js_index xs (int i)"

text \<open>\<^verbatim>\<open>xs.map((x, i) => f(x, i))\<close>: the callback gets the element and its index.\<close>

definition js_mapi :: "(jsval \<Rightarrow> nat \<Rightarrow> jsval) \<Rightarrow> jsval list \<Rightarrow> jsval list" where
  "js_mapi f xs = map (\<lambda>(x, i). f x i) (zip xs [0..<length xs])"

text \<open>The body of the loop of \<open>calculateMaxDrawdown\<close>; the loop state is
  \<open>(maxPrice, maxDrawdown)\<close>.\<close>

definition drawdown_step :: "jsval list \<Rightarrow> nat \<Rightarrow> jsval \<times> jsval \<Rightarrow> jsval \<times> jsval" where
  "drawdown_step prices i st =
     (case st of (maxPrice, maxDrawdown) \<Rightarrow>
        let maxPrice' = (if jgt (js_at prices i) maxPrice then js_at prices i else maxPrice);
            drawdown = jdiv (jsub maxPrice' (js_at prices i)) maxPrice'
        in (maxPrice', if jgt drawdown maxDrawdown then drawdown else maxDrawdown))"

definition calculateMaxDrawdown :: "jsval list \<Rightarrow> jsval" where
  "calculateMaxDrawdown prices =
     (if length prices = 0 then Num 0
      else snd (js_for 1 (length prices) (drawdown_step prices) (js_at prices 0, Num 0)))"

definition calculateSharpeRatio :: "jsval list \<Rightarrow> real \<Rightarrow> jsval" where
  "calculateSharpeRatio returns riskFreeRate =
     (if length returns = 0 then Num 0
      else let n = Num (real (length returns));
               avgReturn = ddiv (dsum returns) n;
               volatility =
                 dsqrt (ddiv (foldl (\<lambda>a b. dadd a (dpow2 (dsub b avgReturn))) (Num 0) returns) n)
           in if jseq volatility (Num 0) then Num 0
              else ddiv (dsub avgReturn (ddiv (Num riskFreeRate) (Num 252))) volatility)"

text \<open>\<^verbatim>\<open>prices.slice(1).map((price, i) => (price - prices[i]) / prices[i])\<close>\<close>

definition price_returns :: "jsval list \<Rightarrow> jsval list" where
  "price_returns prices =
     js_mapi (\<lambda>price i. jdiv (jsub price (js_at prices i)) (js_at prices i))
       (js_slice prices 1 (int (length prices)))"

text \<open>The body of the loop of \<open>calculateCorrelation\<close>; the loop state is
  \<open>(numerator, sumSq1, sumSq2)\<close>.\<close>

definition correlation_step ::
  "jsval list \<Rightarrow> jsval list \<Rightarrow> jsval \<Rightarrow> jsval \<Rightarrow> nat \<Rightarrow> jsval \<times> jsval \<times> jsval \<Rightarrow> jsval \<times> jsval \<times> jsval" where
  "correlation_step returns1 returns2 mean1 mean2 i st =
     (case st of (numerator, sumSq1, sumSq2) \<Rightarrow>
        let diff1 = jsub (js_at returns1 i) mean1;
            diff2 = jsub (js_at returns2 i) mean2
        in (jadd numerator (jmul diff1 diff2),
            jadd sumSq1 (jmul diff1 diff1),
            jadd sumSq2 (jmul diff2 diff2)))"

definition calculateCorrelation :: "jsval list \<Rightarrow> jsval list \<Rightarrow> jsval" where
  "calculateCorrelation prices1 prices2 =
     (if length prices1 \<noteq> length prices2 \<or> length prices1 = 0 then Num 0
      else let returns1 = price_returns prices1;
               returns2 = price_returns prices2;
               mean1 = jdiv (js_sum returns1) (Num (real (length returns1)));
               mean2 = jdiv (js_sum returns2) (Num (real (length returns2)))
           in case js_for 0 (length returns1) (correlation_step returns1 returns2 mean1 mean2)
                     (Num 0, Num 0, Num 0) of
                (numerator, sumSq1, sumSq2) \<Rightarrow>
                  let denominator = jsqrt (jmul sumSq1 sumSq2)
                  in if jseq denominator (Num 0) then Num 0 else jdiv numerator denominator)"

text \<open>
  \<open>priceData\<close> is an object from symbols to price arrays: an association list, read by
  key with \<open>map_of\<close>; \<^verbatim>\<open>Object.keys\<close> lists each key once. Reading a property of
  \<open>undefined\<close> (here the \<^verbatim>\<open>length\<close> of a missing price array) throws a \<open>TypeError\<close>.
\<close>

datatype js_error = TypeError

type_synonym price_data = "(string \<times> jsval list) list"

definition object_keys :: "price_data \<Rightarrow> string list" where
  "object_keys priceData = remdups (map fst priceData)"

text \<open>Running a list of computations in order, stopping at the first error.\<close>

fun collect :: "(js_error + 'a) list \<Rightarrow> js_error + 'a list" where
  "collect [] = Inr []"
| "collect (Inl e # rs) = Inl e"
| "collect (Inr x # rs) = (case collect rs of Inl e \<Rightarrow> Inl e | Inr xs \<Rightarrow> Inr (x # xs))"

record correlation_result =
  matrix :: "jsval list list"
  symbols :: "string list"

text \<open>The entry pushed at \<open>(i, j)\<close> by the two nested loops.\<close>

definition matrix_entry :: "price_data \<Rightarrow> string list \<Rightarrow> nat \<Rightarrow> nat \<Rightarrow> js_error + jsval" where
  "matrix_entry priceData syms i j =
     (if i = j then Inr (Num 1)
      else case (map_of priceData (syms ! i), map_of priceData (syms ! j)) of
             (Some prices1, Some prices2) \<Rightarrow> Inr (calculateCorrelation prices1 prices2)
           | _ \<Rightarrow> Inl TypeError)"

definition calculateCorrelationMatrix :: "price_data \<Rightarrow> js_error + correlation_result" where
  "calculateCorrelationMatrix priceData =
     (let syms = object_keys priceData;
          n = length syms
      in case collect (map (\<lambda>i. collect (map (matrix_entry priceData syms i) [0..<n])) [0..<n]) of
           Inl e \<Rightarrow> Inl e
         | Inr m \<Rightarrow> Inr \<lparr>matrix = m, symbols = syms\<rparr>)"

text \<open>
  The textbook peak-to-trough drawdown of a price series, as the specification words it:
  the maximum of 0 and of \<open>(p\<^sub>i - p\<^sub>j) / p\<^sub>i\<close> over all index pairs \<open>i < j\<close>.
\<close>

definition textbook_max_drawdown :: "real list \<Rightarrow> real" where
  "textbook_max_drawdown p =
     Max (set (0 # [(p ! i - p ! j) / p ! i. j \<leftarrow> [0..<length p], i \<leftarrow> [0..<j]]))"

text \<open>The same pairs as a set.\<close>

definition dd_pairs :: "real list \<Rightarrow> real set" where
  "dd_pairs p = {(p ! i - p ! j) / p ! i | i j. i < j \<and> j < length p}"


text \<open>The arithmetic mean and the population variance (the mean of the squared
  deviations from the mean) of a list of reals, used to state the properties.\<close>

definition arithmetic_mean :: "real list \<Rightarrow> real" where
  "arithmetic_mean rs = sum_list rs / real (length rs)"

definition population_variance :: "real list \<Rightarrow> real" where
  "population_variance rs = sum_list (map (\<lambda>r. (r - arithmetic_mean rs)\<^sup>2) rs) / real (length rs)"

text \<open>The same two in binary64 arithmetic: the sum is taken from the left, and the sum,
  the quotient, each deviation and each square are rounded. The standard deviation is the
  rounded square root of this variance.\<close>

definition double_mean :: "real list \<Rightarrow> jsval" where
  "double_mean rs = ddiv (dsum (map Num rs)) (Num (real (length rs)))"

definition double_variance :: "real list \<Rightarrow> jsval" where
  "double_variance rs =
     ddiv (dsum (map (\<lambda>r. dpow2 (dsub (Num r) (double_mean rs))) rs)) (Num (real (length rs)))"

definition double_std :: "real list \<Rightarrow> jsval" where
  "double_std rs = dsqrt (double_variance rs)"

text \<open>The largest absolute value of a list of reals, 0 for the empty list.\<close>

definition max_abs :: "real list \<Rightarrow> real" where
  "max_abs xs = foldr (\<lambda>x m. max \<bar>x\<bar> m) xs 0"

text \<open>The binary64 number that the literal \<^verbatim>\<open>0.01\<close> denotes.\<close>

definition one_percent :: real where
  "one_percent = 5764607523034235 / 2 ^ 59"

text \<open>The index that \<open>calculateVaR\<close> and \<open>calculateCVaR\<close> compute for an array of \<open>n\<close>
  returns: the floor of the rounded product.\<close>

definition var_index :: "real \<Rightarrow> nat \<Rightarrow> int" where
  "var_index c n = \<lfloor>rounded (c * real n)\<rfloor>"


text \<open>The value that the matrix holds at \<open>(i, j)\<close>, used to state and prove its
  properties (a key of the object always has a price array).\<close>

definition correlation_entry :: "price_data \<Rightarrow> nat \<Rightarrow> nat \<Rightarrow> jsval" where
  "correlation_entry priceData i j =
     (if i = j then Num 1
      else calculateCorrelation
             (case map_of priceData (object_keys priceData ! i) of Some prices \<Rightarrow> prices | None \<Rightarrow> [])
             (case map_of priceData (object_keys priceData ! j) of Some prices \<Rightarrow> prices | None \<Rightarrow> []))"


section \<open>Technical indicators (technical-analysis page)\<close>

text \<open>
  A period is a number of bars, a natural number. The comparison \<^verbatim>\<open>a <= b\<close> is used to
  state the order of the bands.
\<close>

fun jle :: "jsval \<Rightarrow> jsval \<Rightarrow> bool" where
  "jle (Num a) (Num b) = (a \<le> b)"
| "jle (Num a) PosInf = True"
| "jle NegInf (Num b) = True"
| "jle NegInf NegInf = True"
| "jle NegInf PosInf = True"
| "jle PosInf PosInf = True"
| "jle _ _ = False"

text \<open>A finite number: neither an infinity nor \<open>NaN\<close> nor \<open>undefined\<close>.\<close>

fun is_finite :: "jsval \<Rightarrow> bool" where
  "is_finite (Num a) = True"
| "is_finite _ = False"

text \<open>A number or an infinity: neither \<open>NaN\<close> nor \<open>undefined\<close>.\<close>

fun is_number :: "jsval \<Rightarrow> bool" where
  "is_number NaN = False"
| "is_number Undefined = False"
| "is_number _ = True"

text \<open>The body of the first loop of \<open>calculateRSI\<close>; the loop state is \<open>(gains, losses)\<close>.\<close>

definition gains_losses_step ::
  "jsval list \<Rightarrow> nat \<Rightarrow> jsval list \<times> jsval list \<Rightarrow> jsval list \<times> jsval list" where
  "gains_losses_step prices i st =
     (case st of (gains, losses) \<Rightarrow>
        let change = dsub (js_at prices i) (js_at prices (i - 1))
        in (gains @ [if jgt change (Num 0) then change else Num 0],
            losses @ [if jlt change (Num 0) then jabs change else Num 0]))"

text \<open>The body of the second loop; the loop state is \<open>(rsi, avgGain, avgLoss)\<close>.\<close>

definition rsi_step ::
  "jsval list \<Rightarrow> jsval list \<Rightarrow> nat \<Rightarrow> nat \<Rightarrow> jsval list \<times> jsval \<times> jsval
     \<Rightarrow> jsval list \<times> jsval \<times> jsval" where
  "rsi_step gains losses period i st =
     (case st of (rsi, avgGain, avgLoss) \<Rightarrow>
        let avgGain' = ddiv (dadd (dmul avgGain (dsub (Num (real period)) (Num 1))) (js_at gains i))
                            (Num (real period));
            avgLoss' = ddiv (dadd (dmul avgLoss (dsub (Num (real period)) (Num 1))) (js_at losses i))
                            (Num (real period));
            rs = ddiv avgGain' avgLoss';
            rsiValue = dsub (Num 100) (ddiv (Num 100) (dadd (Num 1) rs))
        in (rsi @ [rsiValue], avgGain', avgLoss'))"

definition calculateRSI :: "jsval list \<Rightarrow> nat \<Rightarrow> jsval list" where
  "calculateRSI prices period =
     (if length prices < period + 1 then []
      else case js_for 1 (length prices) (gains_losses_step prices) ([], []) of
             (gains, losses) \<Rightarrow>
               let avgGain = ddiv (dsum (js_slice gains 0 (int period))) (Num (real period));
                   avgLoss = ddiv (dsum (js_slice losses 0 (int period))) (Num (real period))
               in fst (js_for period (length gains) (rsi_step gains losses period)
                         ([], avgGain, avgLoss)))"

text \<open>The body of the loop of \<open>calculateEMA\<close>; the loop state is the array \<open>ema\<close>.\<close>

definition ema_step :: "jsval list \<Rightarrow> jsval \<Rightarrow> nat \<Rightarrow> jsval list \<Rightarrow> jsval list" where
  "ema_step prices multiplier i ema =
     ema @ [jadd (jmul (js_at prices i) multiplier)
                 (jmul (js_at ema (i - 1)) (jsub (Num 1) multiplier))]"

definition calculateEMA :: "jsval list \<Rightarrow> nat \<Rightarrow> jsval list" where
  "calculateEMA prices period =
     (let multiplier = jdiv (Num 2) (jadd (Num (real period)) (Num 1))
      in js_for 1 (length prices) (ema_step prices multiplier) [js_at prices 0])"

record macd_result =
  macd :: "jsval list"
  signal :: "jsval list"
  histogram :: "jsval list"

definition calculateMACD :: "jsval list \<Rightarrow> nat \<Rightarrow> nat \<Rightarrow> nat \<Rightarrow> macd_result" where
  "calculateMACD prices fastPeriod slowPeriod signalPeriod =
     (if length prices < slowPeriod then \<lparr>macd = [], signal = [], histogram = []\<rparr>
      else let emaFast = calculateEMA prices fastPeriod;
               emaSlow = calculateEMA prices slowPeriod;
               macdLine = js_mapi (\<lambda>fast i. jsub fast (js_at emaSlow i)) emaFast;
               signalLine = calculateEMA macdLine signalPeriod;
               histogramBars = js_mapi (\<lambda>macdVal i. jsub macdVal (js_at signalLine i)) macdLine
           in \<lparr>macd = macdLine, signal = signalLine, histogram = histogramBars\<rparr>)"

text \<open>A counting loop whose index may start below zero (\<^verbatim>\<open>i = period - 1\<close>).\<close>

definition js_for_int :: "int \<Rightarrow> int \<Rightarrow> (int \<Rightarrow> 's \<Rightarrow> 's) \<Rightarrow> 's \<Rightarrow> 's" where
  "js_for_int a b body s = fold body [a..b - 1] s"

record bollinger_result =
  upper :: "jsval list"
  middle :: "jsval list"
  lower :: "jsval list"

text \<open>The body of the loop of \<open>calculateBollingerBands\<close>; the loop state is
  \<open>(sma, upper, lower)\<close>.\<close>

definition bollinger_step ::
  "jsval list \<Rightarrow> nat \<Rightarrow> real \<Rightarrow> int \<Rightarrow> jsval list \<times> jsval list \<times> jsval list
     \<Rightarrow> jsval list \<times> jsval list \<times> jsval list" where
  "bollinger_step prices period stdDev i st =
     (case st of (sma, upperBand, lowerBand) \<Rightarrow>
        let slice = js_slice prices (i - int period + 1) (i + 1);
            mean = ddiv (dsum slice) (Num (real period));
            variance = ddiv (foldl (\<lambda>a b. dadd a (dpow2 (dsub b mean))) (Num 0) slice)
                            (Num (real period));
            std = dsqrt variance
        in (sma @ [mean],
            upperBand @ [dadd mean (dmul std (Num stdDev))],
            lowerBand @ [dsub mean (dmul std (Num stdDev))]))"

definition calculateBollingerBands :: "jsval list \<Rightarrow> nat \<Rightarrow> real \<Rightarrow> bollinger_result" where
  "calculateBollingerBands prices period stdDev =
     (if length prices < period then \<lparr>upper = [], middle = [], lower = []\<rparr>
      else case js_for_int (int period - 1) (int (length prices))
                  (bollinger_step prices period stdDev) ([], [], []) of
             (sma, upperBand, lowerBand) \<Rightarrow>
               \<lparr>upper = upperBand, middle = sma, lower = lowerBand\<rparr>)"



section \<open>The routines over a store of arrays\<close>

text \<open>
  A JavaScript array is a mutable object and a routine receives a reference to it. To
  state what a routine does to its argument arrays, the arrays are put in a store: the
  list of the current contents of every array allocated so far, a reference being an
  index into it. An array literal, a spread \<^verbatim>\<open>[...xs]\<close>, \<^verbatim>\<open>slice\<close> and \<^verbatim>\<open>map\<close> allocate a
  new array; \<^verbatim>\<open>push\<close> and \<^verbatim>\<open>sort\<close> update an array in place; an index read,
  \<^verbatim>\<open>length\<close> and \<^verbatim>\<open>reduce\<close> only read. Each routine below is the routine of the source
  again, with every one of these effects written out; a routine that returns an array
  returns its reference.
\<close>

type_synonym 'a heap = "'a list list"

definition h_new :: "'a list \<Rightarrow> 'a heap \<Rightarrow> nat \<times> 'a heap" where
  "h_new xs h = (length h, h @ [xs])"

definition h_push :: "nat \<Rightarrow> 'a \<Rightarrow> 'a heap \<Rightarrow> 'a heap" where
  "h_push a v h = h[a := h ! a @ [v]]"

definition h_sort :: "nat \<Rightarrow> real heap \<Rightarrow> real heap" where
  "h_sort a h = h[a := sort (h ! a)]"

text \<open>Every array of the store \<open>h\<close> is still there, with the same elements, in \<open>h'\<close>.\<close>

definition leaves_unchanged :: "'a heap \<Rightarrow> 'a heap \<Rightarrow> bool" where
  "leaves_unchanged h h' = (length h \<le> length h' \<and> take (length h) h' = h)"

definition calculateVaR_heap :: "nat \<Rightarrow> real \<Rightarrow> real heap \<Rightarrow> jsval \<times> real heap" where
  "calculateVaR_heap returns confidence h =
     (if length (h ! returns) = 0 then (Num 0, h)
      else case h_new (h ! returns) h of
             (sortedReturns, h1) \<Rightarrow>
               let h2 = h_sort sortedReturns h1;
                   index = js_floor (dmul (Num confidence) (Num (real (length (h2 ! sortedReturns)))))
               in (jabs (jor (js_get (map Num (h2 ! sortedReturns)) index) (Num 0)), h2))"

definition calculateCVaR_heap :: "nat \<Rightarrow> real \<Rightarrow> real heap \<Rightarrow> jsval \<times> real heap" where
  "calculateCVaR_heap returns confidence h =
     (if length (h ! returns) = 0 then (Num 0, h)
      else case h_new (h ! returns) h of
             (sortedReturns, h1) \<Rightarrow>
               let h2 = h_sort sortedReturns h1;
                   varIndex = js_floor (dmul (Num confidence) (Num (real (length (h2 ! sortedReturns)))))
               in case h_new (js_slice_to (h2 ! sortedReturns) 0 varIndex) h2 of
                    (tailReturns, h3) \<Rightarrow>
                      (jabs (jor (ddiv (dsum (map Num (h3 ! tailReturns)))
                                       (Num (real (length (h3 ! tailReturns))))) (Num 0)),
                       h3))"

text \<open>\<open>calculateMaxDrawdown\<close> and \<open>calculateSharpeRatio\<close> only read their argument (index
  reads, \<^verbatim>\<open>length\<close>, \<^verbatim>\<open>reduce\<close>) and allocate nothing.\<close>

definition calculateMaxDrawdown_heap :: "nat \<Rightarrow> jsval heap \<Rightarrow> jsval \<times> jsval heap" where
  "calculateMaxDrawdown_heap prices h =
     (if length (h ! prices) = 0 then (Num 0, h)
      else (snd (js_for 1 (length (h ! prices)) (drawdown_step (h ! prices))
                   (js_at (h ! prices) 0, Num 0)),
            h))"

definition calculateSharpeRatio_heap :: "nat \<Rightarrow> real \<Rightarrow> jsval heap \<Rightarrow> jsval \<times> jsval heap" where
  "calculateSharpeRatio_heap returns riskFreeRate h =
     (if length (h ! returns) = 0 then (Num 0, h)
      else let n = Num (real (length (h ! returns)));
               avgReturn = ddiv (dsum (h ! returns)) n;
               volatility =
                 dsqrt (ddiv (foldl (\<lambda>a b. dadd a (dpow2 (dsub b avgReturn))) (Num 0) (h ! returns)) n)
           in (if jseq volatility (Num 0) then Num 0
               else ddiv (dsub avgReturn (ddiv (Num riskFreeRate) (Num 252))) volatility,
               h))"

definition price_returns_heap :: "nat \<Rightarrow> jsval heap \<Rightarrow> nat \<times> jsval heap" where
  "price_returns_heap prices h =
     (case h_new (js_slice (h ! prices) 1 (int (length (h ! prices)))) h of
        (sliced, h1) \<Rightarrow>
          h_new (js_mapi (\<lambda>price i. jdiv (jsub price (js_at (h1 ! prices) i)) (js_at (h1 ! prices) i))
                   (h1 ! sliced)) h1)"

definition calculateCorrelation_heap :: "nat \<Rightarrow> nat \<Rightarrow> jsval heap \<Rightarrow> jsval \<times> jsval heap" where
  "calculateCorrelation_heap prices1 prices2 h =
     (if length (h ! prices1) \<noteq> length (h ! prices2) \<or> length (h ! prices1) = 0 then (Num 0, h)
      else case price_returns_heap prices1 h of
             (returns1, h1) \<Rightarrow>
               case price_returns_heap prices2 h1 of
                 (returns2, h2) \<Rightarrow>
                   let mean1 = jdiv (js_sum (h2 ! returns1)) (Num (real (length (h2 ! returns1))));
                       mean2 = jdiv (js_sum (h2 ! returns2)) (Num (real (length (h2 ! returns2))))
                   in case js_for 0 (length (h2 ! returns1))
                             (correlation_step (h2 ! returns1) (h2 ! returns2) mean1 mean2)
                             (Num 0, Num 0, Num 0) of
                        (numerator, sumSq1, sumSq2) \<Rightarrow>
                          let denominator = jsqrt (jmul sumSq1 sumSq2)
                          in (if jseq denominator (Num 0) then Num 0
                              else jdiv numerator denominator,
                              h2))"
text \<open>The bodies of the two loops of \<open>calculateRSI\<close>: the arrays \<open>gains\<close>, \<open>losses\<close> and
  \<open>rsi\<close> are in the store, the averages are local variables.\<close>

definition gains_losses_step_heap :: "nat \<Rightarrow> nat \<Rightarrow> nat \<Rightarrow> nat \<Rightarrow> jsval heap \<Rightarrow> jsval heap" where
  "gains_losses_step_heap prices gains losses i h =
     (let change = dsub (js_at (h ! prices) i) (js_at (h ! prices) (i - 1));
          h1 = h_push gains (if jgt change (Num 0) then change else Num 0) h
      in h_push losses (if jlt change (Num 0) then jabs change else Num 0) h1)"

definition rsi_step_heap ::
  "nat \<Rightarrow> nat \<Rightarrow> nat \<Rightarrow> nat \<Rightarrow> nat \<Rightarrow> jsval \<times> jsval \<times> jsval heap \<Rightarrow> jsval \<times> jsval \<times> jsval heap" where
  "rsi_step_heap gains losses rsi period i st =
     (case st of (avgGain, avgLoss, h) \<Rightarrow>
        let avgGain' = ddiv (dadd (dmul avgGain (dsub (Num (real period)) (Num 1))) (js_at (h ! gains) i))
                            (Num (real period));
            avgLoss' = ddiv (dadd (dmul avgLoss (dsub (Num (real period)) (Num 1))) (js_at (h ! losses) i))
                            (Num (real period));
            rs = ddiv avgGain' avgLoss';
            rsiValue = dsub (Num 100) (ddiv (Num 100) (dadd (Num 1) rs))
        in (avgGain', avgLoss', h_push rsi rsiValue h))"

definition calculateRSI_heap :: "nat \<Rightarrow> nat \<Rightarrow> jsval heap \<Rightarrow> nat \<times> jsval heap" where
  "calculateRSI_heap prices period h =
     (if length (h ! prices) < period + 1 then h_new [] h
      else case h_new [] h of
        (gains, h1) \<Rightarrow> case h_new [] h1 of
        (losses, h2) \<Rightarrow>
          let h3 = js_for 1 (length (h2 ! prices)) (gains_losses_step_heap prices gains losses) h2
          in case h_new [] h3 of
        (rsi, h4) \<Rightarrow> case h_new (js_slice (h4 ! gains) 0 (int period)) h4 of
        (gainsHead, h5) \<Rightarrow>
          let avgGain = ddiv (dsum (h5 ! gainsHead)) (Num (real period))
          in case h_new (js_slice (h5 ! losses) 0 (int period)) h5 of
        (lossesHead, h6) \<Rightarrow>
          let avgLoss = ddiv (dsum (h6 ! lossesHead)) (Num (real period))
          in case js_for period (length (h6 ! gains)) (rsi_step_heap gains losses rsi period)
                    (avgGain, avgLoss, h6) of
               (avgGain', avgLoss', h7) \<Rightarrow> (rsi, h7))"

definition ema_step_heap :: "nat \<Rightarrow> nat \<Rightarrow> jsval \<Rightarrow> nat \<Rightarrow> jsval heap \<Rightarrow> jsval heap" where
  "ema_step_heap prices ema multiplier i h =
     h_push ema (jadd (jmul (js_at (h ! prices) i) multiplier)
                      (jmul (js_at (h ! ema) (i - 1)) (jsub (Num 1) multiplier))) h"

definition calculateEMA_heap :: "nat \<Rightarrow> nat \<Rightarrow> jsval heap \<Rightarrow> nat \<times> jsval heap" where
  "calculateEMA_heap prices period h =
     (let multiplier = jdiv (Num 2) (jadd (Num (real period)) (Num 1))
      in case h_new [js_at (h ! prices) 0] h of
           (ema, h1) \<Rightarrow>
             (ema, js_for 1 (length (h1 ! prices)) (ema_step_heap prices ema multiplier) h1))"

record macd_refs =
  macd_ref :: nat
  signal_ref :: nat
  histogram_ref :: nat

definition calculateMACD_heap ::
  "nat \<Rightarrow> nat \<Rightarrow> nat \<Rightarrow> nat \<Rightarrow> jsval heap \<Rightarrow> macd_refs \<times> jsval heap" where
  "calculateMACD_heap prices fastPeriod slowPeriod signalPeriod h =
     (if length (h ! prices) < slowPeriod
      then case h_new [] h of
        (macdLine, h1) \<Rightarrow> case h_new [] h1 of
        (signalLine, h2) \<Rightarrow> case h_new [] h2 of
        (histogramBars, h3) \<Rightarrow>
          (\<lparr>macd_ref = macdLine, signal_ref = signalLine, histogram_ref = histogramBars\<rparr>, h3)
      else case calculateEMA_heap prices fastPeriod h of
        (emaFast, h1) \<Rightarrow> case calculateEMA_heap prices slowPeriod h1 of
        (emaSlow, h2) \<Rightarrow>
          case h_new (js_mapi (\<lambda>fast i. jsub fast (js_at (h2 ! emaSlow) i)) (h2 ! emaFast)) h2 of
        (macdLine, h3) \<Rightarrow> case calculateEMA_heap macdLine signalPeriod h3 of
        (signalLine, h4) \<Rightarrow>
          case h_new (js_mapi (\<lambda>macdVal i. jsub macdVal (js_at (h4 ! signalLine) i)) (h4 ! macdLine)) h4 of
        (histogramBars, h5) \<Rightarrow>
          (\<lparr>macd_ref = macdLine, signal_ref = signalLine, histogram_ref = histogramBars\<rparr>, h5))"

record bollinger_refs =
  upper_ref :: nat
  middle_ref :: nat
  lower_ref :: nat

definition bollinger_step_heap ::
  "nat \<Rightarrow> nat \<Rightarrow> nat \<Rightarrow> nat \<Rightarrow> nat \<Rightarrow> real \<Rightarrow> int \<Rightarrow> jsval heap \<Rightarrow> jsval heap" where
  "bollinger_step_heap prices sma upperBand lowerBand period stdDev i h =
     (case h_new (js_slice (h ! prices) (i - int period + 1) (i + 1)) h of
        (slice, h1) \<Rightarrow>
          let mean = ddiv (dsum (h1 ! slice)) (Num (real period));
              variance = ddiv (foldl (\<lambda>a b. dadd a (dpow2 (dsub b mean))) (Num 0) (h1 ! slice))
                              (Num (real period));
              std = dsqrt variance;
              h2 = h_push sma mean h1;
              h3 = h_push upperBand (dadd mean (dmul std (Num stdDev))) h2
          in h_push lowerBand (dsub mean (dmul std (Num stdDev))) h3)"

definition calculateBollingerBands_heap ::
  "nat \<Rightarrow> nat \<Rightarrow> real \<Rightarrow> jsval heap \<Rightarrow> bollinger_refs \<times> jsval heap" where
  "calculateBollingerBands_heap prices period stdDev h =
     (if length (h ! prices) < period
      then case h_new [] h of
        (upperBand, h1) \<Rightarrow> case h_new [] h1 of
        (sma, h2) \<Rightarrow> case h_new [] h2 of
        (lowerBand, h3) \<Rightarrow>
          (\<lparr>upper_ref = upperBand, middle_ref = sma, lower_ref = lowerBand\<rparr>, h3)
      else case h_new [] h of
        (sma, h1) \<Rightarrow> case h_new [] h1 of
        (upperBand, h2) \<Rightarrow> case h_new [] h2 of
        (lowerBand, h3) \<Rightarrow>
          (\<lparr>upper_ref = upperBand, middle_ref = sma, lower_ref = lowerBand\<rparr>,
           js_for_int (int period - 1) (int (length (h3 ! prices)))
             (bollinger_step_heap prices sma upperBand lowerBand period stdDev) h3))"

section \<open>Properties of the binary64 rounding\<close>

lemma pow2_powr: "pow2 e = 2 powr real_of_int e"
  by (simp add: pow2_def powr_real_of_int inverse_eq_divide)

lemma pow2_pos [simp]: "0 < pow2 e"
  by (simp add: pow2_powr)

lemma pow2_nonneg [simp]: "0 \<le> pow2 e"
  by (simp add: pow2_powr)

lemma pow2_neq0 [simp]: "pow2 e \<noteq> 0"
  using pow2_pos[of e] by linarith

lemma pow2_not_neg [simp]: "\<not> pow2 e < 0"
  using pow2_pos[of e] by linarith

lemma pow2_add: "pow2 (a + b) = pow2 a * pow2 b"
  by (simp add: pow2_powr powr_add)

lemma pow2_diff: "pow2 (a - b) = pow2 a / pow2 b"
  by (simp add: pow2_powr powr_diff)

lemma pow2_0 [simp]: "pow2 0 = 1"
  by (simp add: pow2_def)

lemma pow2_le_iff [simp]: "pow2 a \<le> pow2 b \<longleftrightarrow> a \<le> b"
  by (simp add: pow2_powr)

lemma pow2_less_iff [simp]: "pow2 a < pow2 b \<longleftrightarrow> a < b"
  by (simp add: pow2_powr)

lemma pow2_1 [simp]: "pow2 1 = 2"
  by (simp add: pow2_def)

lemma pow2_Suc: "pow2 (e + 1) = 2 * pow2 e"
  by (simp add: pow2_add)

lemma pow2_nat: "0 \<le> e \<Longrightarrow> pow2 e = of_int (2 ^ nat e)"
  by (simp add: pow2_def)

lemma rhe_of_int [simp]: "round_half_even (of_int k) = k"
  by (simp add: round_half_even_def)

lemma rhe_0 [simp]: "round_half_even 0 = 0"
  using rhe_of_int[of 0] by simp

lemma rhe_upper: "of_int (round_half_even x) \<le> x + 1 / 2"
  unfolding round_half_even_def Let_def by (auto; linarith)

lemma rhe_lower: "x - 1 / 2 \<le> of_int (round_half_even x)"
  unfolding round_half_even_def Let_def by (auto; linarith)

lemma rhe_mono: "x \<le> y \<Longrightarrow> round_half_even x \<le> round_half_even y"
proof (cases "x = y")
  case True
  then show ?thesis by simp
next
  case False
  assume "x \<le> y"
  with False have lt: "x < y" by simp
  have "real_of_int (round_half_even x) \<le> x + 1 / 2" by (rule rhe_upper)
  moreover have "y - 1 / 2 \<le> real_of_int (round_half_even y)" by (rule rhe_lower)
  ultimately have "real_of_int (round_half_even x) < real_of_int (round_half_even y) + 1"
    using lt by linarith
  then have "round_half_even x < round_half_even y + 1" by linarith
  then show ?thesis by simp
qed

lemma rhe_le_int: "x \<le> of_int k \<Longrightarrow> round_half_even x \<le> k"
  using rhe_mono[of x "of_int k"] by simp

lemma rhe_ge_int: "of_int k \<le> x \<Longrightarrow> k \<le> round_half_even x"
  using rhe_mono[of "of_int k" x] by simp

lemma rhe_below_half: "x < of_int k - 1 / 2 \<Longrightarrow> round_half_even x \<le> k - 1"
proof -
  assume "x < of_int k - 1 / 2"
  moreover have "real_of_int (round_half_even x) \<le> x + 1 / 2" by (rule rhe_upper)
  ultimately have "real_of_int (round_half_even x) < of_int k" by linarith
  then show ?thesis by linarith
qed

lemma double_exponent_ge: "- 1022 \<le> double_exponent a"
  by (simp add: double_exponent_def)

lemma raw_exponent_bounds:
  assumes "0 < a"
  defines "e \<equiv> (if 1 \<le> a then bitlen \<lfloor>a\<rfloor> - 1 else - bitlen (\<lceil>1 / a\<rceil> - 1))"
  shows "pow2 e \<le> a \<and> a < pow2 (e + 1)"
proof (cases "1 \<le> a")
  case True
  then have fl: "0 < \<lfloor>a\<rfloor>" by linarith
  let ?b = "bitlen \<lfloor>a\<rfloor>"
  from bitlen_bounds[OF fl] have b: "2 ^ nat (?b - 1) \<le> \<lfloor>a\<rfloor>" "\<lfloor>a\<rfloor> < 2 ^ nat ?b" by simp_all
  have b1: "1 \<le> ?b" using fl by (simp add: bitlen_alt_def)
  have e: "e = ?b - 1" using True by (simp add: e_def)
  have "pow2 (?b - 1) = of_int (2 ^ nat (?b - 1))" using b1 by (simp add: pow2_nat)
  also have "\<dots> \<le> of_int \<lfloor>a\<rfloor>" using b(1) by (simp only: of_int_le_iff)
  also have "\<dots> \<le> a" by simp
  finally have lo: "pow2 (?b - 1) \<le> a" .
  have "\<lfloor>a\<rfloor> + 1 \<le> 2 ^ nat ?b" using b(2) by simp
  then have "real_of_int (\<lfloor>a\<rfloor> + 1) \<le> of_int (2 ^ nat ?b)" by (simp only: of_int_le_iff)
  moreover have "a < real_of_int (\<lfloor>a\<rfloor> + 1)" by simp
  moreover have "pow2 ?b = of_int (2 ^ nat ?b)" using b1 by (simp add: pow2_nat)
  ultimately have "a < pow2 ?b" by linarith
  then show ?thesis using lo e by simp
next
  case False
  then have a1: "a < 1" by simp
  let ?m = "\<lceil>1 / a\<rceil> - 1"
  have y: "1 < 1 / a" using assms(1) a1 by simp
  then have m1: "0 < ?m" by linarith
  let ?b = "bitlen ?m"
  from bitlen_bounds[OF m1] have b: "2 ^ nat (?b - 1) \<le> ?m" "?m < 2 ^ nat ?b" by simp_all
  have b1: "1 \<le> ?b" using m1 by (simp add: bitlen_alt_def)
  have e: "e = - ?b" using False by (simp add: e_def)
  have my: "real_of_int ?m < 1 / a" "1 / a \<le> real_of_int ?m + 1" by linarith+
  have "?m + 1 \<le> 2 ^ nat ?b" using b(2) by simp
  then have "real_of_int (?m + 1) \<le> of_int (2 ^ nat ?b)" by (simp only: of_int_le_iff)
  moreover have pb: "pow2 ?b = of_int (2 ^ nat ?b)" using b1 by (simp add: pow2_nat)
  moreover have "real_of_int (?m + 1) = real_of_int ?m + 1" by simp
  ultimately have "1 / a \<le> pow2 ?b" using my(2) by linarith
  then have "1 / pow2 ?b \<le> a" using assms(1) by (simp add: field_simps)
  moreover have "pow2 (- ?b) = 1 / pow2 ?b" using pow2_diff[of 0 ?b] by simp
  ultimately have lo: "pow2 (- ?b) \<le> a" by simp
  have "of_int (2 ^ nat (?b - 1)) \<le> real_of_int ?m" using b(1) by (simp only: of_int_le_iff)
  moreover have "pow2 (?b - 1) = of_int (2 ^ nat (?b - 1))" using b1 by (simp add: pow2_nat)
  ultimately have "pow2 (?b - 1) < 1 / a" using my(1) by linarith
  then have "a < 1 / pow2 (?b - 1)" using assms(1) by (simp add: field_simps)
  moreover have "pow2 (- ?b + 1) = 1 / pow2 (?b - 1)" using pow2_diff[of 0 "?b - 1"] by simp
  ultimately have "a < pow2 (- ?b + 1)" by simp
  then show ?thesis using lo e by simp
qed

lemma exponent_upper: "0 < a \<Longrightarrow> a < pow2 (double_exponent a + 1)"
proof -
  assume a: "0 < a"
  let ?e = "(if 1 \<le> a then bitlen \<lfloor>a\<rfloor> - 1 else - bitlen (\<lceil>1 / a\<rceil> - 1))"
  have "a < pow2 (?e + 1)" using raw_exponent_bounds[OF a] by simp
  also have "\<dots> \<le> pow2 (double_exponent a + 1)" by (simp add: double_exponent_def)
  finally show ?thesis .
qed

lemma exponent_lower: "0 < a \<Longrightarrow> - 1022 < double_exponent a \<Longrightarrow> pow2 (double_exponent a) \<le> a"
proof -
  assume a: "0 < a" and n: "- 1022 < double_exponent a"
  let ?e = "(if 1 \<le> a then bitlen \<lfloor>a\<rfloor> - 1 else - bitlen (\<lceil>1 / a\<rceil> - 1))"
  have "double_exponent a = ?e" using n by (simp add: double_exponent_def max_def split: if_splits)
  then show ?thesis using raw_exponent_bounds[OF a] by simp
qed

lemma exponent_le: "0 < a \<Longrightarrow> a < pow2 (k + 1) \<Longrightarrow> - 1022 \<le> k \<Longrightarrow> double_exponent a \<le> k"
proof (rule ccontr)
  assume a: "0 < a" and u: "a < pow2 (k + 1)" and k: "- 1022 \<le> k" and "\<not> double_exponent a \<le> k"
  then have gt: "k + 1 \<le> double_exponent a" by simp
  then have "- 1022 < double_exponent a" using k by simp
  from exponent_lower[OF a this] have "pow2 (double_exponent a) \<le> a" .
  moreover have "pow2 (k + 1) \<le> pow2 (double_exponent a)" using gt by simp
  ultimately show False using u by linarith
qed

lemma exponent_ge: "pow2 k \<le> a \<Longrightarrow> k \<le> double_exponent a"
proof (rule ccontr)
  assume l: "pow2 k \<le> a" and "\<not> k \<le> double_exponent a"
  then have "double_exponent a + 1 \<le> k" by simp
  then have "pow2 (double_exponent a + 1) \<le> pow2 k" by simp
  moreover have "0 < a" using l pow2_pos[of k] by linarith
  ultimately show False using exponent_upper[of a] l by linarith
qed

lemma exponent_eqI:
  "pow2 k \<le> a \<Longrightarrow> a < pow2 (k + 1) \<Longrightarrow> - 1022 \<le> k \<Longrightarrow> double_exponent a = k"
proof -
  assume l: "pow2 k \<le> a" and u: "a < pow2 (k + 1)" and k: "- 1022 \<le> k"
  have "0 < a" using l pow2_pos[of k] by linarith
  from exponent_le[OF this u k] exponent_ge[OF l] show ?thesis by simp
qed

lemma exponent_mono: "0 < a \<Longrightarrow> a \<le> b \<Longrightarrow> double_exponent a \<le> double_exponent b"
proof -
  assume a: "0 < a" and ab: "a \<le> b"
  then have b: "0 < b" by simp
  have "a < pow2 (double_exponent b + 1)" using exponent_upper[OF b] ab by simp
  then show ?thesis using a double_exponent_ge[of b] by (intro exponent_le) simp_all
qed


lemma rounded_alt:
  "rounded x = (if x = 0 then 0 else if 0 < x then round_abs x else - round_abs (- x))"
  by (simp add: rounded_def round_abs_def Let_def abs_if)

lemma rounded_0 [simp]: "rounded 0 = 0"
  by (simp add: rounded_def)

lemma rounded_minus: "rounded (- x) = - rounded x"
  by (simp add: rounded_alt)

lemma pow2_52: "pow2 52 = of_int (2 ^ 52)" and pow2_53: "pow2 53 = of_int (2 ^ 53)"
  by (simp_all add: pow2_def)

lemma round_abs_nonneg: "0 < a \<Longrightarrow> 0 \<le> round_abs a"
proof -
  assume "0 < a"
  then have "of_int 0 \<le> a / pow2 (double_exponent a - 52)" by simp
  then have "0 \<le> round_half_even (a / pow2 (double_exponent a - 52))" by (rule rhe_ge_int)
  then show ?thesis by (simp add: round_abs_def)
qed

lemma round_abs_upper: "0 < a \<Longrightarrow> round_abs a \<le> pow2 (double_exponent a + 1)"
proof -
  assume a: "0 < a"
  let ?e = "double_exponent a"
  have "a / pow2 (?e - 52) \<le> pow2 (?e + 1) / pow2 (?e - 52)"
    using exponent_upper[OF a] by (intro divide_right_mono) simp_all
  also have "\<dots> = pow2 53" using pow2_diff[of "?e + 1" "?e - 52"] by simp
  finally have "a / pow2 (?e - 52) \<le> of_int (2 ^ 53)" by (simp only: pow2_53)
  then have "round_half_even (a / pow2 (?e - 52)) \<le> 2 ^ 53" by (rule rhe_le_int)
  then have "real_of_int (round_half_even (a / pow2 (?e - 52))) \<le> pow2 53"
    unfolding pow2_53 by (simp only: of_int_le_iff)
  then have "round_abs a \<le> pow2 53 * pow2 (?e - 52)"
    unfolding round_abs_def by (simp add: mult_right_mono)
  also have "\<dots> = pow2 (?e + 1)" using pow2_add[of 53 "?e - 52"] by (simp add: add.commute)
  finally show ?thesis .
qed

lemma round_abs_lower:
  "0 < a \<Longrightarrow> - 1022 < double_exponent a \<Longrightarrow> pow2 (double_exponent a) \<le> round_abs a"
proof -
  assume a: "0 < a" and n: "- 1022 < double_exponent a"
  let ?e = "double_exponent a"
  have "pow2 ?e / pow2 (?e - 52) \<le> a / pow2 (?e - 52)"
    using exponent_lower[OF a n] by (intro divide_right_mono) simp_all
  moreover have "pow2 ?e / pow2 (?e - 52) = pow2 52" using pow2_diff[of ?e "?e - 52"] by simp
  ultimately have "of_int (2 ^ 52) \<le> a / pow2 (?e - 52)" by (simp only: pow2_52)
  then have "2 ^ 52 \<le> round_half_even (a / pow2 (?e - 52))" by (rule rhe_ge_int)
  then have "pow2 52 \<le> real_of_int (round_half_even (a / pow2 (?e - 52)))"
    unfolding pow2_52 by (simp only: of_int_le_iff)
  then have "pow2 52 * pow2 (?e - 52) \<le> round_abs a"
    unfolding round_abs_def by (simp add: mult_right_mono)
  moreover have "pow2 52 * pow2 (?e - 52) = pow2 ?e" using pow2_add[of 52 "?e - 52"] by simp
  ultimately show ?thesis by simp
qed

lemma round_abs_exact:
  "a / pow2 (double_exponent a - 52) = of_int k \<Longrightarrow> round_abs a = a"
proof -
  assume k: "a / pow2 (double_exponent a - 52) = of_int k"
  then have "a = of_int k * pow2 (double_exponent a - 52)" by (simp add: field_simps)
  then show ?thesis unfolding round_abs_def k by simp
qed

lemma round_abs_idem: "0 < a \<Longrightarrow> round_abs (round_abs a) = round_abs a"
proof -
  assume a: "0 < a"
  let ?e = "double_exponent a"
  let ?u = "pow2 (?e - 52)"
  let ?K = "round_half_even (a / ?u)"
  let ?r = "round_abs a"
  have r: "?r = of_int ?K * ?u" by (simp add: round_abs_def)
  have K0: "0 \<le> ?K" using a by (intro rhe_ge_int) simp
  show ?thesis
  proof (cases "?K = 0")
    case True
    then have r0: "?r = 0" using r by simp
    have z: "round_abs 0 = 0" by (simp add: round_abs_def)
    show ?thesis unfolding r0 by (rule z)
  next
    case False
    then have Kpos: "0 < ?K" using K0 by simp
    then have rpos: "0 < ?r" using r by simp
    have up: "?r \<le> pow2 (?e + 1)" using a by (rule round_abs_upper)
    show ?thesis
    proof (cases "?r = pow2 (?e + 1)")
      case True
      have "double_exponent ?r = ?e + 1"
        unfolding True using double_exponent_ge[of a] by (intro exponent_eqI) simp_all
      moreover have "pow2 (?e + 1) / pow2 (?e + 1 - 52) = of_int (2 ^ 52)"
        using pow2_diff[of "?e + 1" "?e + 1 - 52"] by (simp add: pow2_52)
      ultimately have "?r / pow2 (double_exponent ?r - 52) = of_int (2 ^ 52)"
        using True by simp
      then show ?thesis by (rule round_abs_exact)
    next
      case False
      then have lt: "?r < pow2 (?e + 1)" using up by simp
      have "double_exponent ?r = ?e"
      proof (cases "- 1022 < ?e")
        case True
        have "pow2 ?e \<le> ?r" using a True by (rule round_abs_lower)
        then show ?thesis using lt True by (intro exponent_eqI) simp_all
      next
        case False
        then have e: "?e = - 1022" using double_exponent_ge[of a] by simp
        have "double_exponent ?r \<le> - 1022"
          using rpos lt e by (intro exponent_le) simp_all
        then show ?thesis using double_exponent_ge[of ?r] e by simp
      qed
      then have "?r / pow2 (double_exponent ?r - 52) = of_int ?K" using r by simp
      then show ?thesis by (rule round_abs_exact)
    qed
  qed
qed

lemma round_abs_mono: "0 < a \<Longrightarrow> a \<le> b \<Longrightarrow> round_abs a \<le> round_abs b"
proof -
  assume a: "0 < a" and ab: "a \<le> b"
  then have b: "0 < b" by simp
  have e: "double_exponent a \<le> double_exponent b" using a ab by (rule exponent_mono)
  show ?thesis
  proof (cases "double_exponent a = double_exponent b")
    case True
    have "a / pow2 (double_exponent b - 52) \<le> b / pow2 (double_exponent b - 52)"
      using ab by (intro divide_right_mono) simp_all
    then have "round_half_even (a / pow2 (double_exponent b - 52))
                 \<le> round_half_even (b / pow2 (double_exponent b - 52))" by (rule rhe_mono)
    then show ?thesis unfolding round_abs_def True by (simp add: mult_right_mono)
  next
    case False
    then have lt: "double_exponent a + 1 \<le> double_exponent b" using e by simp
    then have n: "- 1022 < double_exponent b" using double_exponent_ge[of a] by simp
    have "round_abs a \<le> pow2 (double_exponent a + 1)" using a by (rule round_abs_upper)
    also have "\<dots> \<le> pow2 (double_exponent b)" using lt by simp
    also have "\<dots> \<le> round_abs b" using b n by (rule round_abs_lower)
    finally show ?thesis .
  qed
qed

lemma rounded_nonneg: "0 \<le> x \<Longrightarrow> 0 \<le> rounded x"
  by (simp add: rounded_alt round_abs_nonneg)

lemma rounded_nonpos: "x \<le> 0 \<Longrightarrow> rounded x \<le> 0"
  using rounded_nonneg[of "- x"] by (simp add: rounded_minus)

lemma rounded_mono: "x \<le> y \<Longrightarrow> rounded x \<le> rounded y"
proof -
  assume xy: "x \<le> y"
  consider "0 < x" | "x \<le> 0" "0 \<le> y" | "y < 0" by linarith
  then show ?thesis
  proof cases
    case 1
    then show ?thesis using xy round_abs_mono[of x y] by (simp add: rounded_alt)
  next
    case 2
    then show ?thesis using rounded_nonneg[of y] rounded_nonpos[of x] by linarith
  next
    case 3
    then have "0 < - y" "- y \<le> - x" using xy by simp_all
    then have "round_abs (- y) \<le> round_abs (- x)" by (rule round_abs_mono)
    then show ?thesis using 3 xy by (simp add: rounded_alt)
  qed
qed

lemma rounded_idem: "rounded (rounded x) = rounded x"
proof -
  have pos: "rounded (rounded a) = rounded a" if "0 < a" for a
  proof (cases "round_abs a = 0")
    case True
    then show ?thesis using that by (simp add: rounded_alt)
  next
    case False
    then have "0 < round_abs a" using round_abs_nonneg[OF that] by simp
    then show ?thesis using that round_abs_idem[OF that] by (simp add: rounded_alt)
  qed
  consider "x = 0" | "0 < x" | "x < 0" by linarith
  then show ?thesis
  proof cases
    case 1 then show ?thesis by simp
  next
    case 2 then show ?thesis by (rule pos)
  next
    case 3
    then have "rounded (rounded (- x)) = rounded (- x)" by (intro pos) simp
    then show ?thesis by (simp add: rounded_minus)
  qed
qed


lemma pow2_not_le0 [simp]: "\<not> pow2 e \<le> 0"
  using pow2_pos[of e] by (simp only: not_le)

lemma to_double_0 [simp]: "to_double 0 = Num 0"
  by (simp add: to_double_def)

lemma to_double_cases:
  "to_double x = Num (rounded x) \<and> \<bar>rounded x\<bar> < pow2 1024
   \<or> to_double x = PosInf \<and> 0 < x \<and> pow2 1024 \<le> rounded x
   \<or> to_double x = NegInf \<and> x < 0 \<and> rounded x \<le> - pow2 1024"
proof (cases "pow2 1024 \<le> \<bar>rounded x\<bar>")
  case False
  then show ?thesis by (simp add: to_double_def)
next
  case True
  show ?thesis
  proof (cases "0 < x")
    case pos: True
    then have "0 \<le> rounded x" by (intro rounded_nonneg) simp
    then show ?thesis using True pos by (simp add: to_double_def)
  next
    case neg: False
    then have r: "rounded x \<le> 0" by (intro rounded_nonpos) simp
    have "x \<noteq> 0"
    proof
      assume "x = 0"
      then have "pow2 1024 \<le> 0" using True by simp
      then show False using pow2_pos[of 1024] by linarith
    qed
    then have "x < 0" using neg by simp
    then show ?thesis using True r neg by (simp add: to_double_def)
  qed
qed

lemma to_double_not_NaN [simp]: "to_double x \<noteq> NaN" "to_double x \<noteq> Undefined"
  using to_double_cases[of x] by auto

lemma to_double_NumD: "to_double x = Num a \<Longrightarrow> a = rounded x \<and> \<bar>a\<bar> < pow2 1024"
  using to_double_cases[of x] by auto

lemma to_double_NumI: "\<bar>rounded x\<bar> < pow2 1024 \<Longrightarrow> to_double x = Num (rounded x)"
  by (simp add: to_double_def)

lemma to_double_idem: "to_double x = Num a \<Longrightarrow> to_double a = Num a"
proof -
  assume "to_double x = Num a"
  then have a: "a = rounded x" "\<bar>a\<bar> < pow2 1024" using to_double_NumD by blast+
  then have "rounded a = a" by (simp add: rounded_idem)
  then show ?thesis using a(2) by (simp add: to_double_def)
qed

lemma to_double_mono: "x \<le> y \<Longrightarrow> jle (to_double x) (to_double y)"
proof -
  assume xy: "x \<le> y"
  then have r: "rounded x \<le> rounded y" by (rule rounded_mono)
  from to_double_cases[of x] to_double_cases[of y] show ?thesis
    using r xy pow2_pos[of 1024] by (elim disjE conjE) simp_all
qed

lemma to_double_nonneg: "0 \<le> x \<Longrightarrow> to_double x = PosInf \<or> (\<exists>r. to_double x = Num r \<and> 0 \<le> r)"
  using to_double_cases[of x] rounded_nonneg[of x] by auto

lemma double_below_one:
  assumes d: "to_double c = Num c" and c: "0 < c" "c < 1"
  shows "c \<le> 1 - pow2 (- 53)"
proof -
  have "rounded c = c" using to_double_NumD[OF d] by simp
  then have rc: "round_abs c = c" using c by (simp add: rounded_alt)
  let ?e = "double_exponent c"
  have e: "?e \<le> - 1" using c by (intro exponent_le) simp_all
  show ?thesis
  proof (cases "?e = - 1")
    case True
    let ?K = "round_half_even (c / pow2 (- 53))"
    have cK: "c = of_int ?K * pow2 (- 53)" using rc True by (simp add: round_abs_def)
    have "c * pow2 53 < pow2 53" using c by simp
    moreover have "pow2 (- 53) * pow2 53 = 1" using pow2_add[of "- 53" 53] by simp
    ultimately have "real_of_int ?K < of_int (2 ^ 53)"
      using cK by (metis mult.assoc mult.right_neutral pow2_53)
    then have "?K \<le> 2 ^ 53 - 1" by linarith
    then have "real_of_int ?K \<le> of_int (2 ^ 53 - 1)" by (simp only: of_int_le_iff)
    then have "real_of_int ?K * pow2 (- 53) \<le> of_int (2 ^ 53 - 1) * pow2 (- 53)"
      by (intro mult_right_mono) simp_all
    also have "\<dots> = pow2 53 * pow2 (- 53) - pow2 (- 53)"
      by (simp add: pow2_53 algebra_simps)
    also have "\<dots> = 1 - pow2 (- 53)" using pow2_add[of 53 "- 53"] by simp
    finally show ?thesis using cK by simp
  next
    case False
    then have "?e + 1 \<le> - 1" using e by simp
    then have "pow2 (?e + 1) \<le> pow2 (- 1)" by simp
    then have "c < pow2 (- 1)" using exponent_upper[OF c(1)] by linarith
    moreover have "pow2 (- 1) \<le> 1 - pow2 (- 53)" by (simp add: pow2_def)
    ultimately show ?thesis by linarith
  qed
qed

lemma product_below_length:
  assumes d: "to_double c = Num c" and c: "0 < c" "c < 1" and n: "0 < n" "n < 2 ^ 32"
  shows "0 \<le> rounded (c * real n) \<and> rounded (c * real n) < real n"
proof -
  let ?a = "c * real n"
  have a: "0 < ?a" using c n by simp
  have an: "?a < real n" using c n by simp
  let ?e = "double_exponent ?a"
  let ?u = "pow2 (?e - 52)"
  have n32: "real n < pow2 32" using n(2) by (simp add: pow2_def)
  have e31: "?e \<le> 31" using a an n32 by (intro exponent_le) simp_all
  have pe: "pow2 ?e < real n"
  proof (cases "- 1022 < ?e")
    case True
    from exponent_lower[OF a True] an show ?thesis by linarith
  next
    case False
    then have "?e = - 1022" using double_exponent_ge[of ?a] by simp
    moreover have "pow2 (- 1022) < 1" using pow2_less_iff[of "- 1022" 0] by simp
    ultimately show ?thesis using n(1) by simp
  qed
  let ?Ni = "int n * 2 ^ nat (52 - ?e)"
  have N: "real n / ?u = of_int ?Ni"
  proof -
    have "real n / ?u = real n * pow2 (52 - ?e)"
      using pow2_add[of "?e - 52" "52 - ?e"] by (simp add: field_simps)
    also have "pow2 (52 - ?e) = of_int (2 ^ nat (52 - ?e))" using e31 by (intro pow2_nat) simp
    finally show ?thesis by simp
  qed
  have Nbig: "pow2 52 < of_int ?Ni"
  proof -
    have "pow2 ?e / ?u < real n / ?u" using pe by (intro divide_strict_right_mono) simp_all
    moreover have "pow2 ?e / ?u = pow2 52" using pow2_diff[of ?e "?e - 52"] by simp
    ultimately show ?thesis using N by simp
  qed
  have "?a / ?u = c * (real n / ?u)" by simp
  also have "\<dots> \<le> (1 - pow2 (- 53)) * (real n / ?u)"
    using double_below_one[OF d c] n(1) by (intro mult_right_mono) simp_all
  also have "\<dots> = of_int ?Ni - pow2 (- 53) * of_int ?Ni" unfolding N by (simp add: algebra_simps)
  also have "\<dots> < of_int ?Ni - 1 / 2"
  proof -
    have "pow2 (- 53) * pow2 52 < pow2 (- 53) * of_int ?Ni"
      using Nbig by (intro mult_strict_left_mono) simp_all
    moreover have "pow2 (- 53) * pow2 52 = 1 / 2" using pow2_add[of "- 53" 52] by (simp add: pow2_def)
    ultimately show ?thesis by linarith
  qed
  finally have "round_half_even (?a / ?u) \<le> ?Ni - 1" by (rule rhe_below_half)
  then have "real_of_int (round_half_even (?a / ?u)) \<le> of_int (?Ni - 1)" by (simp only: of_int_le_iff)
  then have "round_abs ?a \<le> of_int (?Ni - 1) * ?u"
    unfolding round_abs_def by (intro mult_right_mono) simp_all
  also have "\<dots> = real n - ?u" using N by (simp add: field_simps)
  also have "\<dots> < real n" by simp
  finally have "round_abs ?a < real n" .
  then show ?thesis using a round_abs_nonneg[OF a] by (simp add: rounded_alt)
qed

lemma rounded_small_multiple:
  assumes m: "0 < m" "m < 2 ^ 53" and k: "- 1074 \<le> k"
  shows "rounded (of_int m * pow2 k) = of_int m * pow2 k"
proof -
  let ?a = "real_of_int m * pow2 k"
  have a: "0 < ?a" using m by simp
  let ?e = "double_exponent ?a"
  have "real_of_int m < pow2 53" using m(2) unfolding pow2_53 by (simp only: of_int_less_iff)
  then have "?a < pow2 53 * pow2 k" by (intro mult_strict_right_mono) simp_all
  then have "?a < pow2 (k + 52 + 1)" using pow2_add[of 53 k] by (simp add: add.commute)
  then have e: "?e \<le> k + 52" using a k by (intro exponent_le) simp_all
  have "?a / pow2 (?e - 52) = real_of_int m * pow2 (k + 52 - ?e)"
    using pow2_diff[of k "?e - 52"] by (simp add: algebra_simps)
  also have "pow2 (k + 52 - ?e) = of_int (2 ^ nat (k + 52 - ?e))" using e by (intro pow2_nat) simp
  finally have "?a / pow2 (?e - 52) = of_int (m * 2 ^ nat (k + 52 - ?e))" by simp
  then have "round_abs ?a = ?a" by (rule round_abs_exact)
  then show ?thesis using a by (simp add: rounded_alt)
qed

lemma rounded_pow2: "- 1074 \<le> k \<Longrightarrow> rounded (pow2 k) = pow2 k"
  using rounded_small_multiple[of 1 k] by simp

lemma to_double_pow2: "- 1074 \<le> k \<Longrightarrow> k \<le> 1023 \<Longrightarrow> to_double (pow2 k) = Num (pow2 k)"
  by (simp add: to_double_def rounded_pow2)

lemma to_double_minus: "to_double (- x) = (case to_double x of Num a \<Rightarrow> Num (- a) | PosInf \<Rightarrow> NegInf | NegInf \<Rightarrow> PosInf | v \<Rightarrow> v)"
  using to_double_cases[of x] by (auto simp: to_double_def rounded_minus)

lemma to_double_overflow: "pow2 1024 \<le> x \<Longrightarrow> to_double x = PosInf"
proof -
  assume x: "pow2 1024 \<le> x"
  have "rounded (pow2 1024) \<le> rounded x" using x by (rule rounded_mono)
  then have "pow2 1024 \<le> rounded x" by (simp add: rounded_pow2)
  moreover have "0 < x" using x pow2_pos[of 1024] by linarith
  ultimately show ?thesis by (simp add: to_double_def)
qed

lemma rounded_underflow: "\<bar>x\<bar> < pow2 (- 1075) \<Longrightarrow> rounded x = 0"
proof -
  have pos: "round_abs a = 0" if a: "0 < a" "a < pow2 (- 1075)" for a
  proof -
    have "pow2 (- 1075) < pow2 (- 1021)" by (simp add: pow2_less_iff)
    then have "a < pow2 (- 1021)" using a(2) by linarith
    then have "a < pow2 (- 1022 + 1)" by simp
    then have "double_exponent a \<le> - 1022" using a(1) by (intro exponent_le) simp_all
    then have e: "double_exponent a = - 1022" using double_exponent_ge[of a] by simp
    have "a / pow2 (- 1074) < pow2 (- 1075) / pow2 (- 1074)"
      using a(2) by (intro divide_strict_right_mono) simp_all
    moreover have "pow2 (- 1075) / pow2 (- 1074) = 1 / 2" using pow2_diff[of "- 1075" "- 1074"] by (simp add: pow2_def)
    ultimately have "a / pow2 (- 1074) < of_int 1 - 1 / 2" by simp
    then have "round_half_even (a / pow2 (- 1074)) \<le> 1 - 1" by (rule rhe_below_half)
    moreover have "0 \<le> round_half_even (a / pow2 (- 1074))" using a(1) by (intro rhe_ge_int) simp
    ultimately have "round_half_even (a / pow2 (- 1074)) = 0" by simp
    then show ?thesis by (simp add: round_abs_def e)
  qed
  assume "\<bar>x\<bar> < pow2 (- 1075)"
  then show ?thesis using pos[of x] pos[of "- x"] by (simp add: rounded_alt abs_if split: if_splits)
qed

section \<open>Properties of the rounded operations\<close>

lemma dbl_simps [simp]:
  "dbl (Num a) = to_double a" "dbl PosInf = PosInf" "dbl NegInf = NegInf"
  "dbl NaN = NaN" "dbl Undefined = Undefined"
  by (simp_all add: dbl_def)

lemma rounded_of_int: "\<bar>m\<bar> < 2 ^ 53 \<Longrightarrow> rounded (of_int m) = of_int m"
proof -
  assume m: "\<bar>m\<bar> < 2 ^ 53"
  have pos: "rounded (of_int k) = of_int k" if "0 < k" "k < 2 ^ 53" for k
    using rounded_small_multiple[OF that, of 0] by simp
  consider "m = 0" | "0 < m" | "m < 0" by linarith
  then show ?thesis
  proof cases
    case 1
    then show ?thesis by simp
  next
    case 2
    then show ?thesis using m by (intro pos) simp_all
  next
    case 3
    then have "rounded (of_int (- m)) = of_int (- m)" using m by (intro pos) simp_all
    then show ?thesis by (simp add: rounded_minus)
  qed
qed

lemma to_double_of_int: "\<bar>m\<bar> < 2 ^ 53 \<Longrightarrow> to_double (of_int m) = Num (of_int m)"
proof -
  assume m: "\<bar>m\<bar> < 2 ^ 53"
  then have "real_of_int \<bar>m\<bar> < of_int (2 ^ 53)" by (simp only: of_int_less_iff)
  then have "\<bar>real_of_int m\<bar> < pow2 53" by (simp add: pow2_53)
  moreover have "pow2 53 < pow2 1024" by simp
  ultimately have "\<bar>real_of_int m\<bar> < pow2 1024" by linarith
  then show ?thesis using rounded_of_int[OF m] by (simp add: to_double_def)
qed

lemma to_double_numeral [simp]:
  "numeral w < (2::int) ^ 53 \<Longrightarrow> to_double (numeral w) = Num (numeral w)"
  using to_double_of_int[of "numeral w"] by simp

lemma to_double_neg_numeral [simp]:
  "numeral w < (2::int) ^ 53 \<Longrightarrow> to_double (- numeral w) = Num (- numeral w)"
  using to_double_of_int[of "- numeral w"] by simp

lemma to_double_1 [simp]: "to_double 1 = Num 1"
  using to_double_of_int[of 1] by simp

lemma to_double_neg_1 [simp]: "to_double (- 1) = Num (- 1)"
  using to_double_of_int[of "- 1"] by simp

lemma rounded_numeral [simp]: "numeral w < (2::int) ^ 53 \<Longrightarrow> rounded (numeral w) = numeral w"
  using rounded_of_int[of "numeral w"] by simp

lemma rounded_1 [simp]: "rounded 1 = 1"
  using rounded_of_int[of 1] by simp

lemma to_double_of_nat: "n < 2 ^ 53 \<Longrightarrow> to_double (real n) = Num (real n)"
  using to_double_of_int[of "int n"] by simp

lemma is_double_half: "is_double (1 / 2)"
  using to_double_pow2[of "- 1"] by (simp add: is_double_def pow2_def)

lemma is_doubleD: "is_double x \<Longrightarrow> rounded x = x"
  unfolding is_double_def using to_double_NumD by fastforce

text \<open>The rounded sum of finite numbers is a number or an infinity, and so is their
  rounded mean.\<close>

lemma is_number_to_double [simp]: "is_number (to_double x)"
  using to_double_cases[of x] by auto

lemma dadd_Num_number: "is_number a \<Longrightarrow> is_number (dadd a (Num b))"
  by (cases a) (simp_all add: dadd_def)

lemma foldl_dadd_number: "is_number a \<Longrightarrow> is_number (foldl dadd a (map Num rs))"
  by (induction rs arbitrary: a) (simp_all add: dadd_Num_number)

lemma dsum_number: "is_number (dsum (map Num rs))"
  by (simp add: dsum_def foldl_dadd_number)

lemma ddiv_number: "is_number a \<Longrightarrow> b \<noteq> 0 \<Longrightarrow> is_number (ddiv a (Num b))"
  by (cases a) (simp_all add: ddiv_def)

lemma double_mean_number: "rs \<noteq> [] \<Longrightarrow> is_number (double_mean rs)"
  by (simp add: double_mean_def ddiv_number dsum_number)

lemma jabs_jor_number: "is_number v \<Longrightarrow> jabs (jor v (Num 0)) = jabs v"
  by (cases v) (simp_all add: jor_def)

lemma jabs_number: "is_number v \<Longrightarrow> jabs v \<noteq> NaN"
  by (cases v) simp_all

section \<open>Properties of the risk metrics\<close>

lemma js_slice_0: "0 \<le> e \<Longrightarrow> js_slice xs 0 e = take (nat e) xs"
  by (auto simp: js_slice_def Let_def min_def)


text \<open>The index of \<open>calculateVaR\<close> and \<open>calculateCVaR\<close>. The confidence is a binary64
  number below 1, so at most \<open>1 - 2\<^sup>-\<^sup>5\<^sup>3\<close>, and an array has fewer than \<open>2\<^sup>3\<^sup>2\<close> elements:
  the rounded product \<open>c * n\<close> stays below \<open>n\<close>, and the index is in the array.\<close>

lemma var_index_bounds:
  assumes "is_double c" "0 < c" "c < 1" "0 < n" "n < 2 ^ 32"
  shows "0 \<le> var_index c n" "var_index c n < int n"
proof -
  have d: "to_double c = Num c" using assms(1) by (simp add: is_double_def)
  from product_below_length[OF d assms(2-5)]
  have r: "0 \<le> rounded (c * real n)" "rounded (c * real n) < real n" by simp_all
  show "0 \<le> var_index c n" using r(1) by (simp add: var_index_def)
  have "rounded (c * real n) < of_int (int n)" using r(2) by simp
  then show "var_index c n < int n" unfolding var_index_def by (simp only: floor_less_iff)
qed

lemma index_product:
  assumes "0 \<le> var_index c n" "var_index c n < int n" "n < 2 ^ 32"
  shows "js_floor (dmul (Num c) (Num (real n))) = Num (of_int (var_index c n))"
proof -
  let ?r = "rounded (c * real n)"
  have "0 \<le> ?r" using assms(1) by (simp add: var_index_def)
  moreover have "?r < of_int (int n)" using assms(2) unfolding var_index_def by (simp only: floor_less_iff)
  moreover have "real n < pow2 32" using assms(3) by (simp add: pow2_def)
  moreover have "pow2 32 < pow2 1024" by simp
  ultimately have "0 \<le> ?r \<and> ?r < pow2 1024" by linarith
  then have "\<bar>?r\<bar> < pow2 1024" by (simp only: abs_of_nonneg)
  then have "to_double (c * real n) = Num ?r" by (rule to_double_NumI)
  then show ?thesis by (simp add: dmul_def var_index_def)
qed






section \<open>Rounding errors\<close>

text \<open>Rounding to nearest changes a real \<open>x\<close> by at most \<open>\<bar>x\<bar> / 2\<^sup>5\<^sup>3\<close>, or by at most
  \<open>2\<^sup>-\<^sup>1\<^sup>0\<^sup>7\<^sup>5\<close> in the subnormal range.\<close>

lemma round_abs_error:
  assumes a: "0 < a"
  shows "\<bar>round_abs a - a\<bar> \<le> a / 2 ^ 53 + pow2 (- 1075)"
proof -
  let ?e = "double_exponent a"
  let ?u = "pow2 (?e - 52)"
  let ?y = "a / ?u"
  have yu: "?y * ?u = a" by simp
  have "\<bar>real_of_int (round_half_even ?y) - ?y\<bar> \<le> 1 / 2"
    using rhe_upper[of ?y] rhe_lower[of ?y] by linarith
  then have "\<bar>real_of_int (round_half_even ?y) - ?y\<bar> * ?u \<le> 1 / 2 * ?u"
    by (intro mult_right_mono) simp_all
  moreover have "\<bar>real_of_int (round_half_even ?y) - ?y\<bar> * ?u = \<bar>round_abs a - a\<bar>"
  proof -
    have "\<bar>real_of_int (round_half_even ?y) - ?y\<bar> * ?u
        = \<bar>(real_of_int (round_half_even ?y) - ?y) * ?u\<bar>"
      by (simp add: abs_mult)
    also have "(real_of_int (round_half_even ?y) - ?y) * ?u = round_abs a - ?y * ?u"
      by (simp add: round_abs_def algebra_simps)
    finally show ?thesis by (simp only: yu)
  qed
  moreover have "1 / 2 * ?u = pow2 (?e - 53)"
    using pow2_add[of "- 1" "?e - 52"] by (simp add: pow2_def)
  ultimately have half: "\<bar>round_abs a - a\<bar> \<le> pow2 (?e - 53)" by simp
  have "pow2 (?e - 53) \<le> a / 2 ^ 53 + pow2 (- 1075)"
  proof (cases "- 1022 < ?e")
    case True
    have "pow2 (?e - 53) = pow2 ?e / 2 ^ 53"
      using pow2_diff[of ?e 53] by (simp add: pow2_53)
    also have "\<dots> \<le> a / 2 ^ 53"
      using exponent_lower[OF a True] by (intro divide_right_mono) simp_all
    finally show ?thesis using pow2_nonneg[of "- 1075"] by linarith
  next
    case False
    then have "?e = - 1022" using double_exponent_ge[of a] by simp
    then have "pow2 (?e - 53) = pow2 (- 1075)" by simp
    then show ?thesis using a by simp
  qed
  then show ?thesis using half by linarith
qed

lemma rounded_error: "\<bar>rounded x - x\<bar> \<le> \<bar>x\<bar> / 2 ^ 53 + pow2 (- 1075)"
proof -
  consider "x = 0" | "0 < x" | "x < 0" by linarith
  then show ?thesis
  proof cases
    case 1
    then show ?thesis by simp
  next
    case 2
    then show ?thesis using round_abs_error[of x] by (simp add: rounded_alt)
  next
    case 3
    then have "\<bar>round_abs (- x) - (- x)\<bar> \<le> (- x) / 2 ^ 53 + pow2 (- 1075)"
      by (intro round_abs_error) simp
    moreover have "rounded x = - round_abs (- x)" using 3 by (simp add: rounded_alt)
    ultimately show ?thesis using 3 by simp
  qed
qed

text \<open>A sum that is finite at the end was finite all along, and is the fold of the rounded
  additions of reals.\<close>

lemma foldl_dadd_PosInf: "foldl dadd PosInf (map Num xs) = PosInf"
  by (induction xs) (simp_all add: dadd_def)

lemma foldl_dadd_NegInf: "foldl dadd NegInf (map Num xs) = NegInf"
  by (induction xs) (simp_all add: dadd_def)

lemma foldl_dadd_finite:
  "foldl dadd (Num a) (map Num xs) = Num r \<Longrightarrow> r = foldl (\<lambda>s x. rounded (s + x)) a xs"
proof (induction xs arbitrary: a)
  case Nil
  then show ?case by simp
next
  case (Cons x xs)
  have dd: "dadd (Num a) (Num x) = to_double (a + x)" by (simp add: dadd_def)
  have pre: "foldl dadd (to_double (a + x)) (map Num xs) = Num r"
    using Cons.prems unfolding dd[symmetric] by simp
  from to_double_cases[of "a + x"] show ?case
  proof (elim disjE conjE)
    assume t: "to_double (a + x) = Num (rounded (a + x))"
    have "r = foldl (\<lambda>s x. rounded (s + x)) (rounded (a + x)) xs"
      using pre unfolding t by (rule Cons.IH)
    then show ?thesis by simp
  next
    assume t: "to_double (a + x) = PosInf"
    show ?thesis using pre unfolding t foldl_dadd_PosInf by simp
  next
    assume t: "to_double (a + x) = NegInf"
    show ?thesis using pre unfolding t foldl_dadd_NegInf by simp
  qed
qed

text \<open>The error of a sum taken from the left with every addition rounded.\<close>

lemma rounded_sum_error:
  fixes eps :: real
  defines "eps \<equiv> 1 / 2 ^ 53"
  assumes "\<bar>a' - a\<bar> \<le> d"
  shows "\<bar>foldl (\<lambda>s x. rounded (s + x)) a' xs - (a + sum_list xs)\<bar>
           \<le> (1 + eps) ^ length xs * d
             + ((1 + eps) ^ length xs - 1) * (\<bar>a\<bar> + sum_list (map abs xs) + pow2 (- 1022))"
  using assms(2)
proof (induction xs arbitrary: a a' d)
  case Nil
  then show ?case by simp
next
  case (Cons x xs)
  let ?n = "length xs"
  let ?B' = "\<bar>a + x\<bar> + sum_list (map abs xs) + pow2 (- 1022)"
  let ?B = "\<bar>a\<bar> + sum_list (map abs (x # xs)) + pow2 (- 1022)"
  let ?d' = "(1 + eps) * d + eps * ?B'"
  have e0: "0 \<le> eps" "0 < eps" by (simp_all add: eps_def)
  have d0: "0 \<le> d" using Cons.prems by linarith
  have s0: "0 \<le> sum_list (map abs xs)" by (intro sum_list_nonneg) auto
  have eta: "pow2 (- 1075) = eps * pow2 (- 1022)"
    using pow2_add[of "- 53" "- 1022"] by (simp add: eps_def pow2_def)
  have "\<bar>rounded (a' + x) - (a' + x)\<bar> \<le> eps * \<bar>a' + x\<bar> + pow2 (- 1075)"
    using rounded_error[of "a' + x"] by (simp add: eps_def)
  moreover have "\<bar>a' + x\<bar> \<le> \<bar>a + x\<bar> + d" using Cons.prems by linarith
  then have "eps * \<bar>a' + x\<bar> \<le> eps * (\<bar>a + x\<bar> + d)" using e0(1) by (rule mult_left_mono)
  ultimately have "\<bar>rounded (a' + x) - (a' + x)\<bar> \<le> eps * (\<bar>a + x\<bar> + d) + eps * pow2 (- 1022)"
    unfolding eta by linarith
  moreover have "0 \<le> eps * sum_list (map abs xs)" using e0(1) s0 by simp
  ultimately have "\<bar>rounded (a' + x) - (a' + x)\<bar> \<le> eps * d + eps * ?B'"
    by (simp add: algebra_simps)
  then have step: "\<bar>rounded (a' + x) - (a + x)\<bar> \<le> ?d'"
    using Cons.prems by (simp add: algebra_simps)
  have p1: "1 \<le> (1 + eps) ^ ?n" using e0(1) by (intro one_le_power) simp
  have BB: "?B' \<le> ?B" by simp
  have B0: "0 \<le> ?B'" using s0 by simp
  have "\<bar>foldl (\<lambda>s x. rounded (s + x)) (rounded (a' + x)) xs - (a + x + sum_list xs)\<bar>
      \<le> (1 + eps) ^ ?n * ?d' + ((1 + eps) ^ ?n - 1) * ?B'"
    using Cons.IH[OF step] .
  also have "\<dots> = (1 + eps) ^ Suc ?n * d + ((1 + eps) ^ Suc ?n - 1) * ?B'"
    by (simp add: algebra_simps)
  also have "\<dots> \<le> (1 + eps) ^ Suc ?n * d + ((1 + eps) ^ Suc ?n - 1) * ?B"
  proof -
    have "1 \<le> (1 + eps) ^ Suc ?n" using e0(1) by (intro one_le_power) simp
    then have "((1 + eps) ^ Suc ?n - 1) * ?B' \<le> ((1 + eps) ^ Suc ?n - 1) * ?B"
      using BB by (intro mult_left_mono) simp_all
    then show ?thesis by linarith
  qed
  finally show ?case by (simp add: add.assoc)
qed

lemma power_growth:
  fixes eps :: real
  assumes "0 \<le> eps" "real n * eps \<le> 1 / 2"
  shows "(1 + eps) ^ n \<le> 1 + 2 * real n * eps"
  using assms(2)
proof (induction n)
  case 0
  show ?case by simp
next
  case (Suc n)
  have le: "real n * eps \<le> 1 / 2"
  proof -
    have "real n * eps \<le> real (Suc n) * eps" using assms(1) by (intro mult_right_mono) simp_all
    then show ?thesis using Suc.prems by linarith
  qed
  have "(1 + eps) ^ Suc n = (1 + eps) ^ n * (1 + eps)" by simp
  also have "\<dots> \<le> (1 + 2 * real n * eps) * (1 + eps)"
    using Suc.IH[OF le] assms(1) by (intro mult_right_mono) simp_all
  also have "\<dots> = 1 + 2 * real n * eps + eps + (2 * (real n * eps)) * eps"
    by (simp add: algebra_simps)
  also have "\<dots> \<le> 1 + 2 * real n * eps + eps + 1 * eps"
    using le assms(1) by (intro add_left_mono mult_right_mono) simp_all
  also have "\<dots> = 1 + 2 * real (Suc n) * eps" by (simp add: algebra_simps)
  finally show ?case .
qed

text \<open>The mean taken in binary64 arithmetic, when finite, is the arithmetic mean up to
  \<open>2\<^sup>-\<^sup>5\<^sup>1\<close> times the sum of the absolute values, and \<open>2\<^sup>-\<^sup>1\<^sup>0\<^sup>7\<^sup>3\<close> for the subnormal
  range.\<close>

lemma double_mean_error:
  assumes ne: "xs \<noteq> []" and len: "length xs \<le> 2 ^ 52" and fin: "double_mean xs = Num r"
  shows "\<bar>r - arithmetic_mean xs\<bar> \<le> sum_list (map abs xs) / 2 ^ 51 + pow2 (- 1073)"
proof -
  define eps :: real where "eps = 1 / 2 ^ 53"
  define k where "k = real (length xs)"
  define A where "A = sum_list (map abs xs)"
  define L where "L = pow2 (- 1022)"
  define S where "S = sum_list xs"
  define s where "s = foldl (\<lambda>s x. rounded (s + x)) 0 xs"
  have k1: "1 \<le> k" using ne unfolding k_def by (cases xs) simp_all
  have e0: "0 < eps" "0 \<le> eps" "2 * eps \<le> 1" by (simp_all add: eps_def)
  have A0: "0 \<le> A" unfolding A_def by (intro sum_list_nonneg) auto
  have L0: "0 \<le> L" by (simp add: L_def)
  have eta: "pow2 (- 1075) = eps * L"
    using pow2_add[of "- 53" "- 1022"] by (simp add: eps_def L_def pow2_def)
  have SA: "\<bar>S\<bar> \<le> A" unfolding S_def A_def by (rule sum_list_abs)
  have ke: "k * eps \<le> 1 / 2"
  proof -
    have "k \<le> 2 ^ 52" using len unfolding k_def by (metis of_nat_le_iff of_nat_numeral of_nat_power)
    then have "k * eps \<le> 2 ^ 52 * eps" using e0(2) by (intro mult_right_mono) simp_all
    then show ?thesis by (simp add: eps_def)
  qed
  \<comment> \<open>the sum is finite\<close>
  have num: "is_number (dsum (map Num xs))" by (rule dsum_number)
  have "\<exists>t. dsum (map Num xs) = Num t"
  proof (cases "dsum (map Num xs)")
    case (Num t)
    then show ?thesis by simp
  next
    case PosInf
    then show ?thesis using fin by (simp add: double_mean_def ddiv_def)
  next
    case NegInf
    then show ?thesis using fin by (simp add: double_mean_def ddiv_def)
  next
    case NaN
    then show ?thesis using num by simp
  next
    case Undefined
    then show ?thesis using num by simp
  qed
  then obtain t where t: "dsum (map Num xs) = Num t" by blast
  then have ts: "t = s" unfolding dsum_def s_def by (rule foldl_dadd_finite)
  have kn: "k \<noteq> 0" using k1 by simp
  have "to_double (s / k) = Num r"
    using fin t ts kn unfolding double_mean_def ddiv_def k_def by simp
  then have r: "r = rounded (s / k)" using to_double_NumD by blast
  \<comment> \<open>the error of the sum\<close>
  have "\<bar>s - (0 + S)\<bar> \<le> (1 + eps) ^ length xs * 0 + ((1 + eps) ^ length xs - 1) * (\<bar>0\<bar> + A + L)"
    unfolding s_def S_def A_def L_def eps_def by (rule rounded_sum_error) simp
  then have "\<bar>s - S\<bar> \<le> ((1 + eps) ^ length xs - 1) * (A + L)" by simp
  also have "\<dots> \<le> (2 * k * eps) * (A + L)"
  proof -
    have "(1 + eps) ^ length xs \<le> 1 + 2 * k * eps"
      unfolding k_def using e0(2) ke[unfolded k_def] by (rule power_growth)
    then show ?thesis using A0 L0 by (intro mult_right_mono) simp_all
  qed
  finally have es: "\<bar>s - S\<bar> \<le> 2 * k * eps * (A + L)" .
  have es': "\<bar>s - S\<bar> \<le> A + L"
  proof -
    have "2 * k * eps * (A + L) \<le> 1 * (A + L)" using ke A0 L0 by (intro mult_right_mono) simp_all
    then have "2 * k * eps * (A + L) \<le> A + L" by simp
    then show ?thesis by (rule order_trans[OF es])
  qed
  \<comment> \<open>the error of the quotient\<close>
  have "\<bar>r - s / k\<bar> \<le> \<bar>s / k\<bar> * eps + eps * L"
    using rounded_error[of "s / k"] unfolding r eta by (simp add: eps_def)
  moreover have "\<bar>s / k\<bar> \<le> \<bar>s\<bar>"
  proof -
    have "\<bar>s / k\<bar> = \<bar>s\<bar> / k" using k1 by simp
    also have "\<dots> \<le> \<bar>s\<bar> / 1" using k1 by (intro divide_left_mono) simp_all
    finally show ?thesis by simp
  qed
  moreover have "\<bar>s\<bar> \<le> 2 * A + L" using SA es' by linarith
  ultimately have eq: "\<bar>r - s / k\<bar> \<le> (2 * A + L) * eps + eps * L"
  proof -
    assume a1: "\<bar>r - s / k\<bar> \<le> \<bar>s / k\<bar> * eps + eps * L" and a2: "\<bar>s / k\<bar> \<le> \<bar>s\<bar>" and a3: "\<bar>s\<bar> \<le> 2 * A + L"
    have "\<bar>s / k\<bar> * eps \<le> (2 * A + L) * eps" using a2 a3 e0(2) by (intro mult_right_mono) linarith+
    then show ?thesis using a1 by linarith
  qed
  have "\<bar>s / k - S / k\<bar> = \<bar>s - S\<bar> / k" using k1 by (simp add: diff_divide_distrib[symmetric])
  also have "\<dots> \<le> (2 * k * eps * (A + L)) / k" using es k1 by (intro divide_right_mono) simp_all
  also have "\<dots> = 2 * eps * (A + L)" using kn by simp
  finally have em: "\<bar>s / k - S / k\<bar> \<le> 2 * eps * (A + L)" .
  have "\<bar>r - S / k\<bar> \<le> \<bar>r - s / k\<bar> + \<bar>s / k - S / k\<bar>" by linarith
  also have "\<dots> \<le> (2 * A + L) * eps + eps * L + 2 * eps * (A + L)" using eq em by linarith
  also have "\<dots> = 4 * eps * A + 4 * (eps * L)" by (simp add: algebra_simps)
  also have "\<dots> = A / 2 ^ 51 + pow2 (- 1073)"
  proof -
    have "4 * eps = 1 / 2 ^ 51" by (simp add: eps_def)
    moreover have "4 * (eps * L) = pow2 (- 1073)"
      using pow2_add[of 2 "- 1075"] unfolding eta[symmetric] by (simp add: pow2_def)
    ultimately show ?thesis by (simp add: algebra_simps)
  qed
  finally show ?thesis unfolding S_def A_def arithmetic_mean_def k_def .
qed


lemma js_slice_to_index:
  "0 \<le> k \<Longrightarrow> js_slice_to xs 0 (Num (of_int k)) = take (nat k) xs"
  by (simp add: js_slice_0)

lemma cvar_tail:
  assumes "returns \<noteq> []" "0 \<le> var_index c (length returns)"
    "var_index c (length returns) < int (length returns)" "length returns < 2 ^ 32"
  shows "calculateCVaR returns c =
           jabs (jor (ddiv (dsum (map Num (take (nat (var_index c (length returns))) (sort returns))))
                           (Num (real (length (take (nat (var_index c (length returns))) (sort returns))))))
                     (Num 0))"
proof -
  let ?k = "var_index c (length returns)"
  have fl: "js_floor (dmul (Num c) (Num (real (length (js_sorted_copy returns))))) = Num (of_int ?k)"
    using index_product[OF assms(2-4)] by (simp add: js_sorted_copy_def)
  have sl: "js_slice_to (js_sorted_copy returns) 0 (Num (of_int ?k)) = map Num (take (nat ?k) (sort returns))"
    unfolding js_sorted_copy_def js_slice_to_index[OF assms(2)] by (simp add: take_map)
  show ?thesis using assms(1) unfolding calculateCVaR_def Let_def fl sl by simp
qed

text \<open>
  Claim C2, as amended. When \<open>0 < c < 1\<close> and the index \<open>floor(c * n)\<close> that the code
  computes is at least 1, \<open>calculateCVaR\<close> is the absolute value of the mean of the
  \<open>floor(c * n)\<close> smallest returns (the sorted elements below the VaR index), the mean
  being taken in binary64 arithmetic: the sum from the left, in ascending order, each
  addition and the division rounded, an overflow giving an infinity. The result is
  \<open>Infinity\<close> when the sum overflows, and otherwise a finite number that differs from the
  absolute value of the arithmetic mean of these returns by at most \<open>2\<^sup>-\<^sup>5\<^sup>1\<close> times the sum
  of their absolute values, and \<open>2\<^sup>-\<^sup>1\<^sup>0\<^sup>7\<^sup>3\<close>.
\<close>

theorem calculateCVaR_tail_mean:
  "length returns < 2 ^ 32 \<and> is_double c \<and> 0 < c \<and> c < 1 \<and> 1 \<le> var_index c (length returns) \<longrightarrow>
     var_index c (length returns) < int (length returns)
   \<and> calculateCVaR returns c
       = jabs (double_mean (take (nat (var_index c (length returns))) (sort returns)))
   \<and> (calculateCVaR returns c = PosInf
      \<or> (\<exists>r. calculateCVaR returns c = Num r
            \<and> \<bar>r - \<bar>arithmetic_mean (take (nat (var_index c (length returns))) (sort returns))\<bar>\<bar>
                 \<le> sum_list (map abs (take (nat (var_index c (length returns))) (sort returns))) / 2 ^ 51
                     + pow2 (- 1073)))"
proof (intro impI)
  let ?n = "length returns"
  let ?k = "nat (var_index c ?n)"
  let ?tail = "take ?k (sort returns)"
  assume a: "?n < 2 ^ 32 \<and> is_double c \<and> 0 < c \<and> c < 1 \<and> 1 \<le> var_index c ?n"
  have ne: "returns \<noteq> []"
  proof
    assume "returns = []"
    then have "var_index c ?n = 0" by (simp add: var_index_def)
    then show False using a by simp
  qed
  then have n: "0 < ?n" by simp
  have b: "0 \<le> var_index c ?n" "var_index c ?n < int ?n"
    using var_index_bounds[of c ?n] a n by simp_all
  have k: "0 < ?k" "?k < ?n" using a b by (simp_all add: nat_less_iff)
  have len: "length ?tail = ?k" using k by simp
  have tne: "?tail \<noteq> []"
  proof
    assume e: "?tail = []"
    have "length ?tail = 0" unfolding e by simp
    then show False using len k(1) by linarith
  qed
  have "calculateCVaR returns c = jabs (jor (double_mean ?tail) (Num 0))"
    using cvar_tail[OF ne b] a unfolding double_mean_def by simp
  then have eq: "calculateCVaR returns c = jabs (double_mean ?tail)"
    using double_mean_number[OF tne] by (simp add: jabs_jor_number)
  have "?k < 2 ^ 32" using k(2) a by linarith
  moreover have "(2::nat) ^ 32 \<le> 2 ^ 52" by simp
  ultimately have l52: "length ?tail \<le> 2 ^ 52" unfolding len by linarith
  have acc: "calculateCVaR returns c = PosInf
      \<or> (\<exists>r. calculateCVaR returns c = Num r
            \<and> \<bar>r - \<bar>arithmetic_mean ?tail\<bar>\<bar> \<le> sum_list (map abs ?tail) / 2 ^ 51 + pow2 (- 1073))"
  proof (cases "double_mean ?tail")
    case (Num m)
    have "\<bar>m - arithmetic_mean ?tail\<bar> \<le> sum_list (map abs ?tail) / 2 ^ 51 + pow2 (- 1073)"
      using tne l52 Num by (rule double_mean_error)
    moreover have "\<bar>\<bar>m\<bar> - \<bar>arithmetic_mean ?tail\<bar>\<bar> \<le> \<bar>m - arithmetic_mean ?tail\<bar>" by linarith
    ultimately have "\<bar>\<bar>m\<bar> - \<bar>arithmetic_mean ?tail\<bar>\<bar> \<le> sum_list (map abs ?tail) / 2 ^ 51 + pow2 (- 1073)"
      by linarith
    moreover have "calculateCVaR returns c = Num \<bar>m\<bar>" unfolding eq Num by simp
    ultimately show ?thesis by blast
  next
    case PosInf
    then show ?thesis unfolding eq by simp
  next
    case NegInf
    then show ?thesis unfolding eq by simp
  next
    case NaN
    then show ?thesis using double_mean_number[OF tne] by simp
  next
    case Undefined
    then show ?thesis using double_mean_number[OF tne] by simp
  qed
  show "var_index c ?n < int ?n \<and> calculateCVaR returns c = jabs (double_mean ?tail)
        \<and> (calculateCVaR returns c = PosInf
           \<or> (\<exists>r. calculateCVaR returns c = Num r
                 \<and> \<bar>r - \<bar>arithmetic_mean ?tail\<bar>\<bar> \<le> sum_list (map abs ?tail) / 2 ^ 51 + pow2 (- 1073)))"
    using b(2) eq acc by blast
qed

lemma to_double_neg_pow2_1023: "to_double (- pow2 1023) = Num (- pow2 1023)"
  by (simp add: to_double_minus to_double_pow2)

lemma to_double_neg_pow2_1024: "to_double (- (2 * pow2 1023)) = NegInf"
proof -
  have "2 * pow2 1023 = pow2 1024" using pow2_Suc[of 1023] by simp
  then show ?thesis by (simp add: to_double_minus to_double_overflow)
qed

text \<open>
  The claim as stated does not hold when the sum of the tail overflows: of the four
  returns \<open>-2\<^sup>1\<^sup>0\<^sup>2\<^sup>3, -2\<^sup>1\<^sup>0\<^sup>2\<^sup>3, 0, 0\<close> at \<open>c = 1/2\<close>, the two smallest have the arithmetic
  mean \<open>-2\<^sup>1\<^sup>0\<^sup>2\<^sup>3\<close>, a binary64 number, but their sum is \<open>-Infinity\<close> and \<open>calculateCVaR\<close>
  returns \<open>Infinity\<close>.
\<close>

theorem calculateCVaR_overflow_counterexample:
  "(0::real) < 1 / 2 \<and> (1 / 2 :: real) < 1
   \<and> \<lfloor>(1 / 2 :: real) * real (length [- pow2 1023, - pow2 1023, 0, 0])\<rfloor> = 2
   \<and> var_index (1 / 2) (length [- pow2 1023, - pow2 1023, 0, 0]) = 2
   \<and> arithmetic_mean (take 2 (sort [- pow2 1023, - pow2 1023, 0, 0])) = - pow2 1023
   \<and> calculateCVaR [- pow2 1023, - pow2 1023, 0, 0] (1 / 2) = PosInf
   \<and> calculateCVaR [- pow2 1023, - pow2 1023, 0, 0] (1 / 2)
       \<noteq> Num \<bar>arithmetic_mean (take 2 (sort [- pow2 1023, - pow2 1023, 0, 0]))\<bar>"
proof -
  let ?rs = "[- pow2 1023, - pow2 1023, 0, 0]"
  have s: "sort ?rs = ?rs" by simp
  have i: "var_index (1 / 2) (length ?rs) = 2" by (simp add: var_index_def)
  have m: "arithmetic_mean (take 2 (sort ?rs)) = - pow2 1023"
    unfolding s by (simp add: arithmetic_mean_def)
  have b: "0 \<le> var_index (1 / 2) (length ?rs)" "var_index (1 / 2) (length ?rs) < int (length ?rs)"
    unfolding i by simp_all
  have "calculateCVaR ?rs (1 / 2) =
      jabs (jor (ddiv (dsum (map Num (take (nat 2) (sort ?rs))))
                      (Num (real (length (take (nat 2) (sort ?rs)))))) (Num 0))"
    using cvar_tail[of ?rs "1 / 2"] b unfolding i by simp
  also have "\<dots> = PosInf"
    unfolding s
    by (simp add: dsum_def dadd_def ddiv_def jor_def to_double_neg_pow2_1023 to_double_neg_pow2_1024)
  finally have c: "calculateCVaR ?rs (1 / 2) = PosInf" .
  show ?thesis using i m c by simp
qed

theorem calculateCVaR_tail_mean_witness:
  "length [3, - 2, 1, - 5 :: real] < 2 ^ 32 \<and> is_double (1 / 2) \<and> (0::real) < 1 / 2 \<and> (1 / 2 :: real) < 1
   \<and> 1 \<le> var_index (1 / 2) (length [3, - 2, 1, - 5 :: real])
   \<and> var_index (1 / 2) (length [3, - 2, 1, - 5 :: real]) = 2
   \<and> double_mean (take 2 (sort [3, - 2, 1, - 5])) = Num (- (7 / 2))
   \<and> calculateCVaR [3, - 2, 1, - 5] (1 / 2) = Num (7 / 2)
   \<and> \<bar>7 / 2 - \<bar>arithmetic_mean (take 2 (sort [3, - 2, 1, - 5]))\<bar>\<bar>
        \<le> sum_list (map abs (take 2 (sort [3, - 2, 1, - 5]))) / 2 ^ 51 + pow2 (- 1073)"
proof -
  let ?rs = "[3, - 2, 1, - 5 :: real]"
  have i: "var_index (1 / 2) (length ?rs) = 2" by (simp add: var_index_def)
  have h: "length ?rs < 2 ^ 32 \<and> is_double (1 / 2) \<and> (0::real) < 1 / 2 \<and> (1 / 2 :: real) < 1
      \<and> 1 \<le> var_index (1 / 2) (length ?rs)"
    unfolding i using is_double_half by simp
  have half: "to_double (- (7 / 2)) = Num (- (7 / 2))"
  proof -
    have "rounded (of_int 7 * pow2 (- 1)) = of_int 7 * pow2 (- 1)"
      by (rule rounded_small_multiple) simp_all
    then have "rounded (7 / 2) = 7 / 2" by (simp add: pow2_def)
    then have r: "rounded (- (7 / 2)) = - (7 / 2)" using rounded_minus[of "7 / 2"] by simp
    have "(7 / 2 :: real) < pow2 2" by (simp add: pow2_def)
    moreover have "pow2 2 < pow2 1024" by simp
    ultimately have "(7 / 2 :: real) < pow2 1024" by linarith
    moreover have "\<bar>- (7 / 2) :: real\<bar> = 7 / 2" by simp
    ultimately have "\<bar>- (7 / 2) :: real\<bar> < pow2 1024" by (simp only:)
    then show ?thesis unfolding to_double_def r by simp
  qed
  have m: "double_mean (take 2 (sort ?rs)) = Num (- (7 / 2))"
    by (simp add: double_mean_def dsum_def dadd_def ddiv_def half)
  from h have "calculateCVaR ?rs (1 / 2) = jabs (double_mean (take (nat (var_index (1 / 2) (length ?rs))) (sort ?rs)))"
    using calculateCVaR_tail_mean[of ?rs "1 / 2"] by blast
  then have "calculateCVaR ?rs (1 / 2) = jabs (double_mean (take (nat 2) (sort ?rs)))"
    unfolding i .
  then have v: "calculateCVaR ?rs (1 / 2) = Num (7 / 2)" using m by simp
  from h have "calculateCVaR ?rs (1 / 2) = PosInf
      \<or> (\<exists>r. calculateCVaR ?rs (1 / 2) = Num r
            \<and> \<bar>r - \<bar>arithmetic_mean (take (nat (var_index (1 / 2) (length ?rs))) (sort ?rs))\<bar>\<bar>
                 \<le> sum_list (map abs (take (nat (var_index (1 / 2) (length ?rs))) (sort ?rs))) / 2 ^ 51
                     + pow2 (- 1073))"
    using calculateCVaR_tail_mean[of ?rs "1 / 2"] by blast
  then have "\<exists>r. Num (7 / 2) = Num r
            \<and> \<bar>r - \<bar>arithmetic_mean (take (nat 2) (sort ?rs))\<bar>\<bar>
                 \<le> sum_list (map abs (take (nat 2) (sort ?rs))) / 2 ^ 51 + pow2 (- 1073)"
    unfolding i v by simp
  then have e: "\<bar>7 / 2 - \<bar>arithmetic_mean (take (nat 2) (sort ?rs))\<bar>\<bar>
                 \<le> sum_list (map abs (take (nat 2) (sort ?rs))) / 2 ^ 51 + pow2 (- 1073)"
    by blast
  have n2: "nat 2 = 2" by simp
  show ?thesis using h i m v e unfolding n2 by blast
qed

text \<open>The binary64 number nearest \<open>0.01\<close>, the value of the literal \<^verbatim>\<open>0.01\<close>.\<close>

lemma one_percent_nearest: "to_double (1 / 100) = Num one_percent"
  unfolding one_percent_def by code_simp

lemma one_percent_double: "is_double one_percent"
  unfolding is_double_def using one_percent_nearest by (rule to_double_idem)




text \<open>The tail is not empty whenever the rounded product reaches 1, also when the exact
  product is below 1: at the binary64 number nearest \<open>1/3\<close> and three returns the exact
  product is \<open>1 - 2\<^sup>-\<^sup>5\<^sup>4\<close>, the rounded product is 1, and the index is 1.\<close>

lemma one_third_index:
  "\<lfloor>(6004799503160661 / 2 ^ 54 :: real) * real (3::nat)\<rfloor> = 0
   \<and> var_index (6004799503160661 / 2 ^ 54) 3 = 1"
proof
  show "\<lfloor>(6004799503160661 / 2 ^ 54 :: real) * real (3::nat)\<rfloor> = 0" by simp
  show "var_index (6004799503160661 / 2 ^ 54) 3 = 1" unfolding var_index_def by code_simp
qed


subsection \<open>Maximum drawdown\<close>

lemma js_at_map_Num: "i < length rs \<Longrightarrow> js_at (map Num rs) i = Num (rs ! i)"
  by (simp add: js_at_def js_index_def)

lemma js_for_snoc: "a \<le> b \<Longrightarrow> js_for a (Suc b) body s = body b (js_for a b body s)"
  by (simp add: js_for_def)

lemma js_for_empty: "b \<le> a \<Longrightarrow> js_for a b body s = s"
  by (simp add: js_for_def)

lemma js_for_cong:
  "(\<And>i t. a \<le> i \<Longrightarrow> i < b \<Longrightarrow> f i t = g i t) \<Longrightarrow> js_for a b f s = js_for a b g s"
  unfolding js_for_def by (rule fold_cong) auto

lemma dd_pairs_list:
  "set [(p ! i - p ! j) / p ! i. j \<leftarrow> [0..<length p], i \<leftarrow> [0..<j]] = dd_pairs p"
proof (intro set_eqI iffI)
  fix y assume "y \<in> set [(p ! i - p ! j) / p ! i. j \<leftarrow> [0..<length p], i \<leftarrow> [0..<j]]"
  then obtain i j where "i < j" "j < length p" "y = (p ! i - p ! j) / p ! i" by auto
  then show "y \<in> dd_pairs p" unfolding dd_pairs_def by blast
next
  fix y assume "y \<in> dd_pairs p"
  then obtain i j where "i < j" "j < length p" "y = (p ! i - p ! j) / p ! i"
    unfolding dd_pairs_def by blast
  then have "j \<in> set [0..<length p]" "y \<in> (\<lambda>i. (p ! i - p ! j) / p ! i) ` set [0..<j]"
    by (simp, intro image_eqI[of _ _ i]) simp_all
  then show "y \<in> set [(p ! i - p ! j) / p ! i. j \<leftarrow> [0..<length p], i \<leftarrow> [0..<j]]"
    unfolding set_concat set_map image_image by blast
qed

lemma textbook_as_set: "textbook_max_drawdown p = Max (insert 0 (dd_pairs p))"
  by (simp add: textbook_max_drawdown_def dd_pairs_list del: set_concat)

lemma finite_dd_pairs: "finite (dd_pairs p)"
  by (simp only: dd_pairs_list[symmetric] finite_set)

lemma dd_pairs_snoc: "dd_pairs (ps @ [x]) = dd_pairs ps \<union> (\<lambda>a. (a - x) / a) ` set ps"
proof (intro set_eqI iffI)
  fix y assume "y \<in> dd_pairs (ps @ [x])"
  then obtain i j where ij: "i < j" "j < Suc (length ps)" and y: "y = ((ps @ [x]) ! i - (ps @ [x]) ! j) / (ps @ [x]) ! i"
    by (auto simp: dd_pairs_def)
  show "y \<in> dd_pairs ps \<union> (\<lambda>a. (a - x) / a) ` set ps"
  proof (cases "j < length ps")
    case True
    with ij y have "y = (ps ! i - ps ! j) / ps ! i" by (simp add: nth_append)
    with True ij show ?thesis by (auto simp: dd_pairs_def)
  next
    case False
    with ij have j: "j = length ps" by simp
    with ij y have "y = (ps ! i - x) / ps ! i" "i < length ps" by (simp_all add: nth_append)
    then show ?thesis by auto
  qed
next
  fix y assume "y \<in> dd_pairs ps \<union> (\<lambda>a. (a - x) / a) ` set ps"
  then show "y \<in> dd_pairs (ps @ [x])"
  proof
    assume "y \<in> dd_pairs ps"
    then obtain i j where ij: "i < j" "j < length ps" and y: "y = (ps ! i - ps ! j) / ps ! i"
      by (auto simp: dd_pairs_def)
    then have "y = ((ps @ [x]) ! i - (ps @ [x]) ! j) / (ps @ [x]) ! i" by (simp add: nth_append)
    with ij show ?thesis unfolding dd_pairs_def
      by (intro CollectI exI[of _ i] exI[of _ j] conjI) simp_all
  next
    assume "y \<in> (\<lambda>a. (a - x) / a) ` set ps"
    then obtain i where i: "i < length ps" and y: "y = (ps ! i - x) / ps ! i"
      by (auto simp: in_set_conv_nth)
    then have "y = ((ps @ [x]) ! i - (ps @ [x]) ! length ps) / (ps @ [x]) ! i" by (simp add: nth_append)
    with i show ?thesis unfolding dd_pairs_def
      by (intro CollectI exI[of _ i] exI[of _ "length ps"] conjI) simp_all
  qed
qed

lemma Max_drawdown_image:
  assumes ne: "ps \<noteq> []" and pos: "\<forall>a \<in> set ps. 0 < a" and x: "0 < (x::real)"
  shows "Max ((\<lambda>a. (a - x) / a) ` set ps) = (Max (set ps) - x) / Max (set ps)"
proof (rule Max_eqI)
  show "finite ((\<lambda>a. (a - x) / a) ` set ps)" by simp
  have M: "Max (set ps) \<in> set ps" using ne by (simp add: Max_in)
  then show "(Max (set ps) - x) / Max (set ps) \<in> (\<lambda>a. (a - x) / a) ` set ps" by blast
  fix y assume "y \<in> (\<lambda>a. (a - x) / a) ` set ps"
  then obtain a where a: "a \<in> set ps" and y: "y = (a - x) / a" by auto
  have aM: "a \<le> Max (set ps)" using a by simp
  have a0: "0 < a" using a pos by simp
  then have M0: "0 < Max (set ps)" using aM by linarith
  have "x / Max (set ps) \<le> x / a" using a0 aM x by (simp add: frac_le)
  moreover have "(a - x) / a = 1 - x / a" using a0 by (simp add: diff_divide_distrib)
  moreover have "(Max (set ps) - x) / Max (set ps) = 1 - x / Max (set ps)"
    using M0 by (simp add: diff_divide_distrib)
  ultimately show "y \<le> (Max (set ps) - x) / Max (set ps)" using y by simp
qed

lemma textbook_ge0: "0 \<le> textbook_max_drawdown p"
  by (simp add: textbook_as_set finite_dd_pairs)

lemma textbook_snoc:
  assumes ne: "ps \<noteq> []" and pos: "\<forall>a \<in> set ps. 0 < a" and x: "0 < x"
  shows "textbook_max_drawdown (ps @ [x]) =
           max (textbook_max_drawdown ps) ((Max (set ps) - x) / Max (set ps))"
proof -
  let ?I = "(\<lambda>a. (a - x) / a) ` set ps"
  have I: "finite ?I" "?I \<noteq> {}" using ne by simp_all
  have "insert 0 (dd_pairs (ps @ [x])) = insert 0 (dd_pairs ps) \<union> ?I"
    by (simp add: dd_pairs_snoc)
  then have "textbook_max_drawdown (ps @ [x]) = Max (insert 0 (dd_pairs ps) \<union> ?I)"
    by (simp only: textbook_as_set)
  also have "\<dots> = max (Max (insert 0 (dd_pairs ps))) (Max ?I)"
    using I by (intro Max_Un) (simp_all add: finite_dd_pairs)
  finally show ?thesis
    by (simp only: textbook_as_set Max_drawdown_image[OF ne pos x])
qed

lemma drawdown_step_Num:
  assumes i: "i < length ps" and M: "0 < M" and x: "0 < ps ! i"
  shows "drawdown_step (map Num ps) i (Num M, Num D) =
           (Num (max M (ps ! i)), Num (max D ((max M (ps ! i) - ps ! i) / max M (ps ! i))))"
  using assms
  by (auto simp: drawdown_step_def js_at_map_Num jgt_def jsub_def Let_def max_def)

lemma drawdown_loop_Num:
  assumes "ps \<noteq> []" "\<forall>a \<in> set ps. 0 < a"
  shows "js_for 1 (length ps) (drawdown_step (map Num ps)) (js_at (map Num ps) 0, Num 0)
           = (Num (Max (set ps)), Num (textbook_max_drawdown ps))"
  using assms
proof (induction ps rule: rev_nonempty_induct)
  case (single x)
  have "textbook_max_drawdown [x] = 0"
    by (simp add: textbook_max_drawdown_def)
  then show ?case by (simp add: js_for_empty js_at_def js_index_def)
next
  case (snoc x ps)
  let ?n = "length ps"
  have n: "1 \<le> ?n" using snoc.hyps by (cases ps) simp_all
  have pos: "\<forall>a \<in> set ps. 0 < a" and x: "0 < x" using snoc.prems by simp_all
  have "Max (set ps) \<in> set ps" using snoc.hyps by simp
  then have M0: "0 < Max (set ps)" using pos by blast
  have same: "js_for 1 ?n (drawdown_step (map Num (ps @ [x]))) s = js_for 1 ?n (drawdown_step (map Num ps)) s" for s
  proof (rule js_for_cong)
    fix i t assume "1 \<le> i" "i < ?n"
    then have "js_at (map Num (ps @ [x])) i = js_at (map Num ps) i"
      by (simp add: js_at_def js_index_def nth_append)
    then show "drawdown_step (map Num (ps @ [x])) i t = drawdown_step (map Num ps) i t"
      by (simp only: drawdown_step_def)
  qed
  have at0: "js_at (map Num (ps @ [x])) 0 = js_at (map Num ps) 0"
    using snoc.hyps by (cases ps) (simp_all add: js_at_def js_index_def)
  have len: "length (ps @ [x]) = Suc ?n" by simp
  have "js_for 1 (length (ps @ [x])) (drawdown_step (map Num (ps @ [x]))) (js_at (map Num (ps @ [x])) 0, Num 0)
        = drawdown_step (map Num (ps @ [x])) ?n
            (js_for 1 ?n (drawdown_step (map Num (ps @ [x]))) (js_at (map Num (ps @ [x])) 0, Num 0))"
    unfolding len by (rule js_for_snoc[OF n])
  also have "js_for 1 ?n (drawdown_step (map Num (ps @ [x]))) (js_at (map Num (ps @ [x])) 0, Num 0)
        = (Num (Max (set ps)), Num (textbook_max_drawdown ps))"
    unfolding same at0 by (rule snoc.IH[OF pos])
  also have "drawdown_step (map Num (ps @ [x])) ?n (Num (Max (set ps)), Num (textbook_max_drawdown ps))
       = (Num (max (Max (set ps)) x), Num (max (textbook_max_drawdown ps) ((max (Max (set ps)) x - x) / max (Max (set ps)) x)))"
    using drawdown_step_Num[of ?n "ps @ [x]" "Max (set ps)" "textbook_max_drawdown ps"] M0 x
    by simp
  also have "max (Max (set ps)) x = Max (set (ps @ [x]))"
    using snoc.hyps by (simp add: max.commute)
  also have "max (textbook_max_drawdown ps) ((Max (set (ps @ [x])) - x) / Max (set (ps @ [x])))
             = textbook_max_drawdown (ps @ [x])"
  proof (cases "x \<le> Max (set ps)")
    case True
    then have "Max (set (ps @ [x])) = Max (set ps)" using snoc.hyps by (simp add: max_def)
    then show ?thesis by (simp add: textbook_snoc[OF snoc.hyps pos x])
  next
    case False
    then have Mx: "Max (set (ps @ [x])) = x" using snoc.hyps by (simp add: max_def)
    have neg: "(Max (set ps) - x) / Max (set ps) < 0" using False M0 by (simp add: divide_less_0_iff)
    have rhs: "textbook_max_drawdown (ps @ [x]) = textbook_max_drawdown ps"
      unfolding textbook_snoc[OF snoc.hyps pos x] using neg textbook_ge0[of ps] by linarith
    have lhs: "max (textbook_max_drawdown ps) ((x - x) / x) = textbook_max_drawdown ps"
      using textbook_ge0[of ps] by simp
    show ?thesis unfolding Mx rhs by (rule lhs)
  qed
  finally show ?case .
qed

text \<open>
  Claim C3. On a non-empty array of strictly positive prices the single-pass
  \<open>calculateMaxDrawdown\<close> equals the textbook peak-to-trough drawdown, the maximum of 0
  and of \<open>(prices[i] - prices[j]) / prices[i]\<close> over all \<open>i < j\<close>; on an array of length at
  most 1 it returns 0.
\<close>

theorem calculateMaxDrawdown_textbook:
  "(prices \<noteq> [] \<and> (\<forall>p \<in> set prices. 0 < p) \<longrightarrow>
      calculateMaxDrawdown (map Num prices) = Num (textbook_max_drawdown prices))
   \<and> (length ps \<le> 1 \<longrightarrow> calculateMaxDrawdown ps = Num 0)"
proof (intro conjI impI)
  assume "prices \<noteq> [] \<and> (\<forall>p \<in> set prices. 0 < p)"
  then show "calculateMaxDrawdown (map Num prices) = Num (textbook_max_drawdown prices)"
    using drawdown_loop_Num[of prices] by (simp add: calculateMaxDrawdown_def)
next
  assume "length ps \<le> 1"
  then show "calculateMaxDrawdown ps = Num 0"
    by (simp add: calculateMaxDrawdown_def js_for_empty)
qed

theorem calculateMaxDrawdown_textbook_witness:
  "[100, 120, 90, 110, 60, 130] \<noteq> ([]::real list) \<and> 0 < Min (set [100, 120, 90, 110, 60, 130::real])
   \<and> calculateMaxDrawdown (map Num [100, 120, 90, 110, 60, 130]) = Num (1 / 2)
   \<and> length [Num 7] \<le> 1 \<and> calculateMaxDrawdown [Num 7] = Num 0"
proof -
  have "textbook_max_drawdown [100, 120, 90, 110, 60, 130] = 1 / 2"
    by code_simp
  then show ?thesis
    using calculateMaxDrawdown_textbook[of "[100, 120, 90, 110, 60, 130]" "[Num 7]"]
    by simp
qed


subsection \<open>Sharpe ratio\<close>

lemma foldl_dadd_map: "foldl (\<lambda>a b. dadd a (f b)) z xs = foldl dadd z (map f xs)"
  by (induction xs arbitrary: z) simp_all

lemma jle_0_to_double: "0 \<le> x \<Longrightarrow> jle (Num 0) (to_double x)"
  using to_double_mono[of 0 x] by simp

lemma jle_0_number: "jle (Num 0) v \<Longrightarrow> is_number v"
  by (cases v) simp_all

lemma dsub_Num_number: "is_number m \<Longrightarrow> is_number (dsub (Num r) m)"
  by (cases m) (simp_all add: dsub_def jsub_def)

lemma dpow2_nonneg: "is_number v \<Longrightarrow> jle (Num 0) (dpow2 v)"
  by (cases v) (simp_all add: dpow2_def jle_0_to_double)

lemma dadd_nonneg: "jle (Num 0) a \<Longrightarrow> jle (Num 0) b \<Longrightarrow> jle (Num 0) (dadd a b)"
  by (cases a; cases b) (simp_all add: dadd_def jle_0_to_double)

lemma foldl_dadd_nonneg:
  "jle (Num 0) a \<Longrightarrow> \<forall>x \<in> set xs. jle (Num 0) x \<Longrightarrow> jle (Num 0) (foldl dadd a xs)"
  by (induction xs arbitrary: a) (simp_all add: dadd_nonneg)

lemma dsum_nonneg: "\<forall>x \<in> set xs. jle (Num 0) x \<Longrightarrow> jle (Num 0) (dsum xs)"
  by (simp add: dsum_def foldl_dadd_nonneg)

lemma ddiv_nonneg: "jle (Num 0) a \<Longrightarrow> 0 < b \<Longrightarrow> jle (Num 0) (ddiv a (Num b))"
  by (cases a) (simp_all add: ddiv_def jle_0_to_double)

lemma dsqrt_nonneg: "jle (Num 0) a \<Longrightarrow> jle (Num 0) (dsqrt a)"
  by (cases a) (simp_all add: dsqrt_def jle_0_to_double)

lemma double_variance_nonneg: "rs \<noteq> [] \<Longrightarrow> jle (Num 0) (double_variance rs)"
  unfolding double_variance_def
  by (intro ddiv_nonneg dsum_nonneg) (auto simp: dpow2_nonneg dsub_Num_number double_mean_number)

lemma double_std_nonneg: "rs \<noteq> [] \<Longrightarrow> jle (Num 0) (double_std rs)"
  unfolding double_std_def by (intro dsqrt_nonneg double_variance_nonneg)

lemma jseq_number: "is_number v \<Longrightarrow> jseq v (Num 0) = (v = Num 0)"
  by (cases v) simp_all

lemma sharpe_volatility:
  "dsqrt (ddiv (foldl (\<lambda>a b. dadd a (dpow2 (dsub b (double_mean rs)))) (Num 0) (map Num rs))
               (Num (real (length rs)))) = double_std rs"
proof -
  have "foldl (\<lambda>a b. dadd a (dpow2 (dsub b (double_mean rs)))) (Num 0) (map Num rs)
      = foldl dadd (Num 0) (map (\<lambda>b. dpow2 (dsub b (double_mean rs))) (map Num rs))"
    by (rule foldl_dadd_map)
  then show ?thesis by (simp add: double_std_def double_variance_def dsum_def comp_def)
qed

text \<open>The error of the variance taken in binary64 arithmetic, for at most \<open>2\<^sup>2\<^sup>0\<close> values of
  absolute value at most \<open>M\<close>: at most \<open>n * M\<^sup>2 / 2\<^sup>4\<^sup>5\<close>, and \<open>2\<^sup>-\<^sup>1\<^sup>0\<^sup>7\<^sup>1\<close> for the subnormal
  range.\<close>

lemma max_abs_ge: "x \<in> set xs \<Longrightarrow> \<bar>x\<bar> \<le> max_abs xs"
  by (induction xs) (auto simp: max_abs_def)

lemma max_abs_nonneg: "0 \<le> max_abs xs"
  by (induction xs) (auto simp: max_abs_def)

lemma sum_list_bounded:
  fixes f :: "real \<Rightarrow> real"
  shows "\<forall>x \<in> set xs. f x \<le> c \<Longrightarrow> sum_list (map f xs) \<le> real (length xs) * c"
  by (induction xs) (simp_all add: algebra_simps)

lemma sum_list_diff_bounded:
  fixes f g :: "real \<Rightarrow> real"
  shows "\<forall>x \<in> set xs. \<bar>f x - g x\<bar> \<le> c \<Longrightarrow>
    \<bar>sum_list (map f xs) - sum_list (map g xs)\<bar> \<le> real (length xs) * c"
proof (induction xs)
  case Nil
  show ?case by simp
next
  case (Cons x xs)
  then have "\<bar>f x - g x\<bar> \<le> c"
    and "\<bar>sum_list (map f xs) - sum_list (map g xs)\<bar> \<le> real (length xs) * c" by simp_all
  then show ?case by (auto simp: algebra_simps)
qed

lemma sum_list_abs_nonneg:
  fixes f :: "real \<Rightarrow> real"
  shows "\<forall>x \<in> set xs. 0 \<le> f x \<Longrightarrow> sum_list (map abs (map f xs)) = sum_list (map f xs)"
  by (induction xs) simp_all

lemma foldl_dadd_all_finite:
  "jle (Num 0) a \<Longrightarrow> \<forall>y \<in> set ys. jle (Num 0) y \<Longrightarrow> foldl dadd a ys = Num t \<Longrightarrow>
     is_finite a \<and> (\<forall>y \<in> set ys. is_finite y)"
proof (induction ys arbitrary: a)
  case Nil
  then show ?case by simp
next
  case (Cons y ys)
  have nn: "jle (Num 0) (dadd a y)" using Cons.prems by (intro dadd_nonneg) simp_all
  have "foldl dadd (dadd a y) ys = Num t" using Cons.prems by simp
  then have ih: "is_finite (dadd a y) \<and> (\<forall>z \<in> set ys. is_finite z)"
    using nn Cons.prems by (intro Cons.IH) simp_all
  have nna: "jle (Num 0) a" and nny: "jle (Num 0) y" using Cons.prems by simp_all
  have "is_finite a \<and> is_finite y"
    by (insert ih nna nny, cases a; cases y; simp add: dadd_def)
  then show ?case using ih by simp
qed

lemma squared_deviation_finite:
  assumes "is_number m" "is_finite (dpow2 (dsub (Num x) m))"
  shows "\<exists>a. m = Num a
           \<and> dpow2 (dsub (Num x) m) = Num (rounded (rounded (x - a) * rounded (x - a)))"
proof (cases m)
  case (Num a)
  from to_double_cases[of "x - a"] have d: "to_double (x - a) = Num (rounded (x - a))"
    using assms(2) unfolding Num by (auto simp: dsub_def jsub_def dpow2_def)
  let ?d = "rounded (x - a)"
  from to_double_cases[of "?d * ?d"] have "to_double (?d * ?d) = Num (rounded (?d * ?d))"
    using assms(2) unfolding Num by (auto simp: dsub_def jsub_def dpow2_def d)
  then show ?thesis unfolding Num by (simp add: dsub_def jsub_def dpow2_def d)
next
  case PosInf
  then show ?thesis using assms(2) by (simp add: dsub_def jsub_def dpow2_def)
next
  case NegInf
  then show ?thesis using assms(2) by (simp add: dsub_def jsub_def dpow2_def)
next
  case NaN
  then show ?thesis using assms(1) by simp
next
  case Undefined
  then show ?thesis using assms(1) by simp
qed

lemma double_variance_finite:
  assumes ne: "xs \<noteq> []" and fin: "double_variance xs = Num v"
  shows "\<exists>a. double_mean xs = Num a
           \<and> double_mean (map (\<lambda>x. rounded (rounded (x - a) * rounded (x - a))) xs) = Num v"
proof -
  let ?f = "\<lambda>r. dpow2 (dsub (Num r) (double_mean xs))"
  have mn: "is_number (double_mean xs)" using ne by (rule double_mean_number)
  have nn: "\<forall>y \<in> set (map ?f xs). jle (Num 0) y"
    using mn by (auto simp: dpow2_nonneg dsub_Num_number)
  have sn: "jle (Num 0) (dsum (map ?f xs))" using nn by (rule dsum_nonneg)
  have "\<exists>t. dsum (map ?f xs) = Num t"
  proof (cases "dsum (map ?f xs)")
    case (Num t)
    then show ?thesis by simp
  next
    case PosInf
    then show ?thesis using fin by (simp add: double_variance_def ddiv_def)
  next
    case NegInf
    then show ?thesis using sn by simp
  next
    case NaN
    then show ?thesis using sn by simp
  next
    case Undefined
    then show ?thesis using sn by simp
  qed
  then obtain t where t: "foldl dadd (Num 0) (map ?f xs) = Num t" unfolding dsum_def by blast
  have allfin: "\<forall>y \<in> set (map ?f xs). is_finite y"
    using foldl_dadd_all_finite[OF _ nn t] by simp
  obtain x0 where x0: "x0 \<in> set xs" using ne by (cases xs) auto
  then have "is_finite (?f x0)" using allfin by simp
  then obtain a where a: "double_mean xs = Num a"
    using squared_deviation_finite[OF mn] by blast
  have "dpow2 (dsub (Num x) (Num a)) = Num (rounded (rounded (x - a) * rounded (x - a)))"
    if "x \<in> set xs" for x
  proof -
    have "is_finite (?f x)" using allfin that by simp
    then show ?thesis using squared_deviation_finite[OF mn, of x] a by auto
  qed
  then have meq: "map (\<lambda>r. dpow2 (dsub (Num r) (Num a))) xs
      = map Num (map (\<lambda>x. rounded (rounded (x - a) * rounded (x - a))) xs)"
    by simp
  have "double_variance xs
      = ddiv (dsum (map Num (map (\<lambda>x. rounded (rounded (x - a) * rounded (x - a))) xs)))
             (Num (real (length xs)))"
    unfolding double_variance_def a meq by (rule refl)
  also have "\<dots> = double_mean (map (\<lambda>x. rounded (rounded (x - a) * rounded (x - a))) xs)"
    unfolding double_mean_def by simp
  finally show ?thesis using a fin by auto
qed

lemma double_variance_error:
  assumes ne: "xs \<noteq> []" and len: "length xs \<le> 2 ^ 20" and fin: "double_variance xs = Num v"
  shows "\<bar>v - population_variance xs\<bar>
           \<le> real (length xs) * (max_abs xs)\<^sup>2 / 2 ^ 45 + pow2 (- 1071)"
proof -
  define u :: real where "u = 1 / 2 ^ 53"
  define L where "L = pow2 (- 1022)"
  define k where "k = real (length xs)"
  define M where "M = max_abs xs"
  define w where "w = max M L"
  define m where "m = arithmetic_mean xs"
  define A where "A = sum_list (map abs xs)"
  obtain a where a: "double_mean xs = Num a"
    and vq: "double_mean (map (\<lambda>x. rounded (rounded (x - a) * rounded (x - a))) xs) = Num v"
    using double_variance_finite[OF ne fin] by blast
  define q where "q = (\<lambda>x. rounded (rounded (x - a) * rounded (x - a)))"
  define phi where "phi = 69 * (k * u * w\<^sup>2) + u * L"
  have u0: "0 < u" "0 \<le> u" by (simp_all add: u_def)
  have L0: "0 < L" by (simp add: L_def)
  have k1: "1 \<le> k" using ne unfolding k_def by (cases xs) simp_all
  have M0: "0 \<le> M" unfolding M_def by (rule max_abs_nonneg)
  have wM: "M \<le> w" and wL: "L \<le> w" and w0: "0 < w" and w0': "0 \<le> w"
    using L0 unfolding w_def by simp_all
  have eta: "pow2 (- 1075) = u * L"
    using pow2_add[of "- 53" "- 1022"] by (simp add: u_def L_def pow2_def)
  have eta4: "pow2 (- 1073) = 4 * (u * L)"
    using pow2_add[of 2 "- 1075"] unfolding eta[symmetric] by (simp add: pow2_def)
  have ku: "k * u \<le> 1 / 2 ^ 33"
  proof -
    have "k \<le> 2 ^ 20" using len unfolding k_def by (metis of_nat_le_iff of_nat_numeral of_nat_power)
    then have "k * u \<le> 2 ^ 20 * u" using u0 by (intro mult_right_mono) simp_all
    then show ?thesis by (simp add: u_def)
  qed
  have kuw: "0 \<le> k * u * w" using k1 u0 w0' by simp
  have kuw2: "0 \<le> k * u * w\<^sup>2" using k1 u0 by simp
  have uw_le: "u * w \<le> k * u * w"
  proof -
    have "1 * (u * w) \<le> k * (u * w)" using k1 u0 w0' by (intro mult_right_mono) simp_all
    then show ?thesis by (simp add: mult.assoc)
  qed
  have small: "c * (k * u * w) \<le> w" if "c \<le> 2 ^ 33" "0 \<le> c" for c
  proof -
    have "c * (k * u) \<le> 2 ^ 33 * (1 / 2 ^ 33)" using that ku k1 u0 by (intro mult_mono) simp_all
    then have "c * (k * u) \<le> 1" by simp
    then have "c * (k * u) * w \<le> 1 * w" using w0' by (intro mult_right_mono) simp_all
    then show ?thesis by (simp add: mult.assoc)
  qed
  \<comment> \<open>the values and their mean\<close>
  have xb: "\<bar>x\<bar> \<le> w" if "x \<in> set xs" for x
    using max_abs_ge[OF that] wM unfolding M_def by linarith
  have Ab: "A \<le> k * w"
    unfolding A_def k_def using xb by (intro sum_list_bounded) simp
  have A0: "0 \<le> A" unfolding A_def by (intro sum_list_nonneg) auto
  have mb: "\<bar>m\<bar> \<le> w"
  proof -
    have "\<bar>sum_list xs\<bar> \<le> A" unfolding A_def by (rule sum_list_abs)
    then have "\<bar>sum_list xs\<bar> / k \<le> (k * w) / k" using Ab k1 by (intro divide_right_mono) simp_all
    moreover have "(k * w) / k = w" using k1 by simp
    moreover have "\<bar>m\<bar> = \<bar>sum_list xs\<bar> / k"
      using k1 unfolding m_def arithmetic_mean_def k_def by simp
    ultimately show ?thesis by linarith
  qed
  have l52: "length xs \<le> 2 ^ 52"
  proof -
    have "(2::nat) ^ 20 \<le> 2 ^ 52" by simp
    then show ?thesis using len by linarith
  qed
  have "\<bar>a - m\<bar> \<le> A / 2 ^ 51 + pow2 (- 1073)"
    unfolding m_def A_def using ne l52 a by (rule double_mean_error)
  also have "\<dots> = 4 * (u * A) + 4 * (u * L)" unfolding eta4 by (simp add: u_def)
  also have "\<dots> \<le> 4 * (u * (k * w)) + 4 * (u * w)"
    using Ab wL u0 by (intro add_mono mult_left_mono) simp_all
  also have "\<dots> \<le> 4 * (k * u * w) + 4 * (k * u * w)"
    using uw_le by (simp add: algebra_simps)
  finally have mu: "\<bar>a - m\<bar> \<le> 8 * (k * u * w)" by simp
  have mu_w: "\<bar>a - m\<bar> \<le> w" using mu small[of 8] by simp
  \<comment> \<open>one squared deviation\<close>
  have sqt: "\<bar>q x - (x - m)\<^sup>2\<bar> \<le> phi \<and> 0 \<le> q x \<and> q x \<le> 4 * w\<^sup>2 + phi" if x: "x \<in> set xs" for x
  proof -
    define d where "d = x - m"
    define t where "t = x - a"
    define dh where "dh = rounded t"
    have db: "\<bar>d\<bar> \<le> 2 * w" using xb[OF x] mb unfolding d_def by linarith
    have tb: "\<bar>t\<bar> \<le> 3 * w" using db mu_w unfolding t_def d_def by linarith
    have "\<bar>dh - t\<bar> \<le> \<bar>t\<bar> * u + u * L"
      using rounded_error[of t] unfolding dh_def eta by (simp add: u_def)
    also have "\<dots> \<le> (3 * w) * u + u * w"
      using tb wL u0 by (intro add_mono mult_right_mono mult_left_mono) simp_all
    also have "\<dots> = 4 * (u * w)" by simp
    also have "\<dots> \<le> 4 * (k * u * w)" using uw_le by simp
    finally have e1: "\<bar>dh - t\<bar> \<le> 4 * (k * u * w)" .
    have "\<bar>dh - d\<bar> \<le> \<bar>dh - t\<bar> + \<bar>a - m\<bar>" unfolding t_def d_def by linarith
    then have th: "\<bar>dh - d\<bar> \<le> 12 * (k * u * w)" using e1 mu by linarith
    have th_w: "\<bar>dh - d\<bar> \<le> w" using th small[of 12] by simp
    have dhb: "\<bar>dh\<bar> \<le> 3 * w" using db th_w by linarith
    have "\<bar>dh * dh - d * d\<bar> = \<bar>dh - d\<bar> * \<bar>dh + d\<bar>"
      by (simp add: abs_mult[symmetric] algebra_simps)
    also have "\<dots> \<le> (12 * (k * u * w)) * (5 * w)"
      using th dhb db by (intro mult_mono) (simp_all add: kuw)
    also have "\<dots> = 60 * (k * u * w\<^sup>2)" by (simp add: power2_eq_square)
    finally have e2: "\<bar>dh * dh - d * d\<bar> \<le> 60 * (k * u * w\<^sup>2)" .
    have sq: "dh * dh \<le> 9 * w\<^sup>2"
    proof -
      have "\<bar>dh\<bar> * \<bar>dh\<bar> \<le> (3 * w) * (3 * w)" using dhb by (intro mult_mono) simp_all
      then show ?thesis by (simp add: power2_eq_square abs_mult_self_eq)
    qed
    have "\<bar>q x - dh * dh\<bar> \<le> \<bar>dh * dh\<bar> * u + u * L"
      using rounded_error[of "dh * dh"] unfolding q_def dh_def t_def eta by (simp add: u_def)
    also have "\<dots> \<le> (9 * w\<^sup>2) * u + u * L"
    proof -
      have "\<bar>dh * dh\<bar> = dh * dh" by simp
      then have "\<bar>dh * dh\<bar> * u \<le> (9 * w\<^sup>2) * u" using sq u0 by (intro mult_right_mono) simp_all
      then show ?thesis by linarith
    qed
    also have "\<dots> \<le> 9 * (k * u * w\<^sup>2) + u * L"
    proof -
      have "1 * (u * w\<^sup>2) \<le> k * (u * w\<^sup>2)" using k1 u0 by (intro mult_right_mono) simp_all
      then show ?thesis by (simp add: algebra_simps)
    qed
    finally have e3: "\<bar>q x - dh * dh\<bar> \<le> 9 * (k * u * w\<^sup>2) + u * L" .
    have "\<bar>q x - d * d\<bar> \<le> \<bar>q x - dh * dh\<bar> + \<bar>dh * dh - d * d\<bar>" by linarith
    then have e4: "\<bar>q x - d * d\<bar> \<le> phi" using e2 e3 unfolding phi_def by linarith
    have q0: "0 \<le> q x" unfolding q_def by (intro rounded_nonneg) simp
    have "d * d \<le> 4 * w\<^sup>2"
    proof -
      have "\<bar>d\<bar> * \<bar>d\<bar> \<le> (2 * w) * (2 * w)" using db by (intro mult_mono) simp_all
      then show ?thesis by (simp add: power2_eq_square abs_mult_self_eq)
    qed
    then have "q x \<le> 4 * w\<^sup>2 + phi" using e4 by linarith
    then show ?thesis using e4 q0 unfolding d_def by (simp add: power2_eq_square)
  qed
  have phi0: "0 \<le> phi" unfolding phi_def using kuw2 u0 L0 by simp
  \<comment> \<open>the mean of the squares against the variance\<close>
  have "\<bar>sum_list (map q xs) - sum_list (map (\<lambda>x. (x - m)\<^sup>2) xs)\<bar> \<le> k * phi"
    unfolding k_def using sqt by (intro sum_list_diff_bounded) simp
  then have "\<bar>sum_list (map q xs) - sum_list (map (\<lambda>x. (x - m)\<^sup>2) xs)\<bar> / k \<le> (k * phi) / k"
    using k1 by (intro divide_right_mono) simp_all
  moreover have "\<bar>sum_list (map q xs) - sum_list (map (\<lambda>x. (x - m)\<^sup>2) xs)\<bar> / k
      = \<bar>arithmetic_mean (map q xs) - population_variance xs\<bar>"
    using k1 unfolding arithmetic_mean_def population_variance_def k_def m_def
    by (simp add: diff_divide_distrib[symmetric])
  ultimately have E1: "\<bar>arithmetic_mean (map q xs) - population_variance xs\<bar> \<le> phi"
    using k1 by simp
  \<comment> \<open>the mean of the squares, rounded\<close>
  have qne: "map q xs \<noteq> []" using ne by simp
  have ql: "length (map q xs) \<le> 2 ^ 52" using l52 by simp
  have vq': "double_mean (map q xs) = Num v" using vq unfolding q_def .
  have "sum_list (map abs (map q xs)) = sum_list (map q xs)"
    using sqt by (intro sum_list_abs_nonneg) simp
  moreover have "sum_list (map q xs) \<le> k * (4 * w\<^sup>2 + phi)"
    unfolding k_def using sqt by (intro sum_list_bounded) simp
  ultimately have sq: "sum_list (map abs (map q xs)) \<le> k * (4 * w\<^sup>2 + phi)" by simp
  have "\<bar>v - arithmetic_mean (map q xs)\<bar> \<le> sum_list (map abs (map q xs)) / 2 ^ 51 + pow2 (- 1073)"
    using qne ql vq' by (rule double_mean_error)
  also have "\<dots> = 4 * (u * sum_list (map abs (map q xs))) + 4 * (u * L)"
    unfolding eta4 by (simp add: u_def)
  also have "\<dots> \<le> 4 * (u * (k * (4 * w\<^sup>2 + phi))) + 4 * (u * L)"
    using sq u0 by (intro add_mono mult_left_mono) simp_all
  also have "\<dots> = 16 * (k * u * w\<^sup>2) + 4 * (k * u) * phi + 4 * (u * L)"
    by (simp add: algebra_simps)
  also have "\<dots> \<le> 16 * (k * u * w\<^sup>2) + 1 * phi + 4 * (u * L)"
  proof -
    have "4 * (k * u) \<le> 1" using ku by simp
    then have "4 * (k * u) * phi \<le> 1 * phi" using phi0 by (intro mult_right_mono) simp_all
    then show ?thesis by linarith
  qed
  finally have E2: "\<bar>v - arithmetic_mean (map q xs)\<bar> \<le> 16 * (k * u * w\<^sup>2) + phi + 4 * (u * L)"
    by simp
  have "\<bar>v - population_variance xs\<bar>
      \<le> \<bar>v - arithmetic_mean (map q xs)\<bar> + \<bar>arithmetic_mean (map q xs) - population_variance xs\<bar>"
    by linarith
  then have "\<bar>v - population_variance xs\<bar> \<le> 154 * (k * u * w\<^sup>2) + 6 * (u * L)"
    using E1 E2 unfolding phi_def by linarith
  also have "\<dots> \<le> 256 * (k * u * w\<^sup>2) + 8 * (u * L)"
    using kuw2 u0 L0 by (intro add_mono mult_right_mono) simp_all
  also have "\<dots> = k * w\<^sup>2 / 2 ^ 45 + pow2 (- 1072)"
  proof -
    have "8 * (u * L) = pow2 (- 1072)"
      using pow2_add[of 3 "- 1075"] unfolding eta[symmetric] by (simp add: pow2_def)
    then show ?thesis by (simp add: u_def)
  qed
  also have "\<dots> \<le> k * M\<^sup>2 / 2 ^ 45 + pow2 (- 1071)"
  proof -
    have "w\<^sup>2 \<le> M\<^sup>2 + L\<^sup>2"
      unfolding w_def using M0 L0 by (cases "M \<le> L") (simp_all add: max_def)
    then have "k * w\<^sup>2 \<le> k * (M\<^sup>2 + L\<^sup>2)" using k1 by (intro mult_left_mono) simp_all
    then have "k * w\<^sup>2 / 2 ^ 45 \<le> k * (M\<^sup>2 + L\<^sup>2) / 2 ^ 45" by (intro divide_right_mono) simp_all
    moreover have "k * L\<^sup>2 / 2 ^ 45 \<le> pow2 (- 1072)"
    proof -
      have "k \<le> 2 ^ 20" using len unfolding k_def by (metis of_nat_le_iff of_nat_numeral of_nat_power)
      then have "k * L\<^sup>2 \<le> 2 ^ 20 * L\<^sup>2" by (intro mult_right_mono) simp_all
      then have "k * L\<^sup>2 / 2 ^ 45 \<le> 2 ^ 20 * L\<^sup>2 / 2 ^ 45" by (intro divide_right_mono) simp_all
      also have "\<dots> = pow2 (- 25) * pow2 (- 2044)"
        using pow2_add[of "- 1022" "- 1022"] by (simp add: L_def power2_eq_square pow2_def)
      also have "\<dots> = pow2 (- 2069)" using pow2_add[of "- 25" "- 2044"] by simp
      also have "\<dots> \<le> pow2 (- 1072)" by simp
      finally show ?thesis .
    qed
    moreover have "pow2 (- 1072) + pow2 (- 1072) = pow2 (- 1071)"
      using pow2_Suc[of "- 1072"] by simp
    ultimately show ?thesis by (simp add: algebra_simps add_divide_distrib)
  qed
  finally show ?thesis unfolding k_def M_def .
qed


text \<open>
  Claim C4, as amended. On a non-empty array of returns, \<open>calculateSharpeRatio\<close> is 0 when
  the volatility it computes is 0, and otherwise the mean return less the risk-free rate
  divided by 252, over that volatility. The mean and the volatility are those of binary64
  arithmetic: the mean is the rounded quotient of the sum taken from the left, the
  volatility the rounded square root of the mean, taken in the same way, of the rounded
  squares of the rounded deviations. The volatility computed is a number, at least 0 or
  infinite, never \<open>NaN\<close>. The mean, when finite, differs from the arithmetic mean of the
  returns by at most \<open>2\<^sup>-\<^sup>5\<^sup>1\<close> times the sum of their absolute values, and \<open>2\<^sup>-\<^sup>1\<^sup>0\<^sup>7\<^sup>3\<close>. The
  variance computed, whose rounded square root is the volatility, when finite and of at
  most \<open>2\<^sup>2\<^sup>0\<close> returns, differs from the population variance by at most
  \<open>n * M\<^sup>2 / 2\<^sup>4\<^sup>5\<close>, with \<open>M\<close> the largest absolute value of a return, and \<open>2\<^sup>-\<^sup>1\<^sup>0\<^sup>7\<^sup>1\<close>: the
  volatility is accurate when the population variance is large against this bound, and
  has no accuracy left when it is not.
\<close>

theorem calculateSharpeRatio_formula:
  "returns \<noteq> [] \<longrightarrow>
     jle (Num 0) (double_std returns)
   \<and> calculateSharpeRatio (map Num returns) riskFreeRate =
       (if double_std returns = Num 0 then Num 0
        else ddiv (dsub (double_mean returns) (ddiv (Num riskFreeRate) (Num 252)))
                  (double_std returns))
   \<and> (\<forall>m. length returns < 2 ^ 32 \<and> double_mean returns = Num m \<longrightarrow>
          \<bar>m - arithmetic_mean returns\<bar> \<le> sum_list (map abs returns) / 2 ^ 51 + pow2 (- 1073))
   \<and> double_std returns = dsqrt (double_variance returns)
   \<and> (\<forall>v. length returns \<le> 2 ^ 20 \<and> double_variance returns = Num v \<longrightarrow>
          \<bar>v - population_variance returns\<bar>
            \<le> real (length returns) * (max_abs returns)\<^sup>2 / 2 ^ 45 + pow2 (- 1071))"
proof (intro impI conjI allI)
  assume ne: "returns \<noteq> []"
  show "double_std returns = dsqrt (double_variance returns)" by (rule double_std_def)
  show "\<bar>v - population_variance returns\<bar>
            \<le> real (length returns) * (max_abs returns)\<^sup>2 / 2 ^ 45 + pow2 (- 1071)"
    if "length returns \<le> 2 ^ 20 \<and> double_variance returns = Num v" for v
    using ne that by (intro double_variance_error) simp_all
  show "\<bar>m - arithmetic_mean returns\<bar> \<le> sum_list (map abs returns) / 2 ^ 51 + pow2 (- 1073)"
    if "length returns < 2 ^ 32 \<and> double_mean returns = Num m" for m
  proof -
    have "(2::nat) ^ 32 \<le> 2 ^ 52" by simp
    then have "length returns \<le> 2 ^ 52" using that by linarith
    then show ?thesis using ne that by (intro double_mean_error) simp_all
  qed
  show nn: "jle (Num 0) (double_std returns)" using ne by (rule double_std_nonneg)
  have avg: "ddiv (dsum (map Num returns)) (Num (real (length (map Num returns)))) = double_mean returns"
    by (simp add: double_mean_def)
  have vol: "dsqrt (ddiv (foldl (\<lambda>a b. dadd a (dpow2 (dsub b (double_mean returns)))) (Num 0) (map Num returns))
                         (Num (real (length (map Num returns))))) = double_std returns"
    using sharpe_volatility[of returns] by simp
  have len: "length (map Num returns) \<noteq> 0" using ne by simp
  show "calculateSharpeRatio (map Num returns) riskFreeRate =
       (if double_std returns = Num 0 then Num 0
        else ddiv (dsub (double_mean returns) (ddiv (Num riskFreeRate) (Num 252)))
                  (double_std returns))"
    unfolding calculateSharpeRatio_def Let_def avg vol
    using len jseq_number[OF jle_0_number[OF nn]] by simp
qed

lemma to_double_underflow: "\<bar>x\<bar> < pow2 (- 1075) \<Longrightarrow> to_double x = Num 0"
  using rounded_underflow[of x] by (simp add: to_double_def)

lemma square_underflow: "to_double (pow2 (- 600) * pow2 (- 600)) = Num 0"
proof -
  have "pow2 (- 600) * pow2 (- 600) = pow2 (- 1200)" using pow2_add[of "- 600" "- 600"] by simp
  moreover have "pow2 (- 1200) < pow2 (- 1075)" by simp
  ultimately show ?thesis by (intro to_double_underflow) simp
qed

text \<open>
  The claim as stated does not hold when the squared deviations underflow: the returns
  \<open>2\<^sup>-\<^sup>6\<^sup>0\<^sup>0\<close> and \<open>-2\<^sup>-\<^sup>6\<^sup>0\<^sup>0\<close> have the mean 0 and the population standard deviation
  \<open>2\<^sup>-\<^sup>6\<^sup>0\<^sup>0\<close>, which is not 0, but both squares round to 0, the volatility computed is 0,
  and \<open>calculateSharpeRatio\<close> returns 0 where the quotient of the claim is not 0.
\<close>

theorem calculateSharpeRatio_underflow_counterexample:
  "[pow2 (- 600), - pow2 (- 600)] \<noteq> []
   \<and> sqrt (population_variance [pow2 (- 600), - pow2 (- 600)]) = pow2 (- 600)
   \<and> sqrt (population_variance [pow2 (- 600), - pow2 (- 600)]) \<noteq> 0
   \<and> (arithmetic_mean [pow2 (- 600), - pow2 (- 600)] - 1 / 252)
        / sqrt (population_variance [pow2 (- 600), - pow2 (- 600)]) \<noteq> 0
   \<and> calculateSharpeRatio (map Num [pow2 (- 600), - pow2 (- 600)]) 1 = Num 0
   \<and> calculateSharpeRatio (map Num [pow2 (- 600), - pow2 (- 600)]) 1
       \<noteq> Num ((arithmetic_mean [pow2 (- 600), - pow2 (- 600)] - 1 / 252)
                / sqrt (population_variance [pow2 (- 600), - pow2 (- 600)]))"
proof -
  let ?p = "pow2 (- 600)"
  have m: "arithmetic_mean [?p, - ?p] = 0" by (simp add: arithmetic_mean_def)
  have "population_variance [?p, - ?p] = ?p\<^sup>2"
    by (simp add: population_variance_def m power2_eq_square)
  then have v: "sqrt (population_variance [?p, - ?p]) = ?p" by simp
  have p: "to_double ?p = Num ?p" by (simp add: to_double_pow2)
  have np: "to_double (- ?p) = Num (- ?p)" by (simp add: to_double_minus p)
  have c: "calculateSharpeRatio (map Num [?p, - ?p]) 1 = Num 0"
    by (simp add: calculateSharpeRatio_def dsum_def dadd_def ddiv_def dsub_def jsub_def dpow2_def
          dsqrt_def p np square_underflow)
  show ?thesis unfolding v m c by simp
qed

lemma double_mean_example: "double_mean [1, 3] = Num 2"
  by (simp add: double_mean_def dsum_def dadd_def ddiv_def)

lemma double_variance_example: "double_variance [1, 3] = Num 1"
  by (simp add: double_variance_def double_mean_example dsum_def dadd_def ddiv_def
        dsub_def jsub_def dpow2_def)

lemma double_std_example: "double_std [1, 3] = Num 1"
  by (simp add: double_std_def double_variance_example dsqrt_def)

theorem calculateSharpeRatio_formula_witness:
  "[1, 3] \<noteq> ([]::real list) \<and> double_mean [1, 3] = Num 2 \<and> double_std [1, 3] = Num 1
   \<and> jle (Num 0) (double_std [1, 3])
   \<and> calculateSharpeRatio (map Num [1, 3]) 252 = Num 1
   \<and> length [1, 3 :: real] < 2 ^ 32
   \<and> \<bar>2 - arithmetic_mean [1, 3]\<bar> \<le> sum_list (map abs [1, 3]) / 2 ^ 51 + pow2 (- 1073)
   \<and> length [1, 3 :: real] \<le> 2 ^ 20 \<and> double_variance [1, 3] = Num 1
   \<and> \<bar>1 - population_variance [1, 3]\<bar>
        \<le> real (length [1, 3 :: real]) * (max_abs [1, 3])\<^sup>2 / 2 ^ 45 + pow2 (- 1071)"
proof -
  have ne: "[1, 3] \<noteq> ([]::real list)" by simp
  then have nn: "jle (Num 0) (double_std [1, 3])"
    using calculateSharpeRatio_formula[of "[1, 3]" 252] by blast
  from ne have "calculateSharpeRatio (map Num [1, 3]) 252 =
       (if double_std [1, 3] = Num 0 then Num 0
        else ddiv (dsub (double_mean [1, 3]) (ddiv (Num 252) (Num 252))) (double_std [1, 3]))"
    using calculateSharpeRatio_formula[of "[1, 3]" 252] by blast
  then have v: "calculateSharpeRatio (map Num [1, 3]) 252 = Num 1"
    unfolding double_mean_example double_std_example by (simp add: ddiv_def dsub_def jsub_def)
  have l: "length [1, 3 :: real] < 2 ^ 32" by simp
  from ne have "\<forall>m. length [1, 3 :: real] < 2 ^ 32 \<and> double_mean [1, 3] = Num m \<longrightarrow>
          \<bar>m - arithmetic_mean [1, 3]\<bar> \<le> sum_list (map abs [1, 3]) / 2 ^ 51 + pow2 (- 1073)"
    using calculateSharpeRatio_formula[of "[1, 3]" 252] by blast
  then have e: "\<bar>2 - arithmetic_mean [1, 3]\<bar> \<le> sum_list (map abs [1, 3]) / 2 ^ 51 + pow2 (- 1073)"
    using l double_mean_example by blast
  have l20: "length [1, 3 :: real] \<le> 2 ^ 20" by simp
  from ne have "\<forall>v. length [1, 3 :: real] \<le> 2 ^ 20 \<and> double_variance [1, 3] = Num v \<longrightarrow>
          \<bar>v - population_variance [1, 3]\<bar>
            \<le> real (length [1, 3 :: real]) * (max_abs [1, 3])\<^sup>2 / 2 ^ 45 + pow2 (- 1071)"
    using calculateSharpeRatio_formula[of "[1, 3]" 252] by blast
  then have ev: "\<bar>1 - population_variance [1, 3]\<bar>
            \<le> real (length [1, 3 :: real]) * (max_abs [1, 3])\<^sup>2 / 2 ^ 45 + pow2 (- 1071)"
    using l20 double_variance_example by blast
  show ?thesis
    using ne nn double_mean_example double_std_example v l e l20 double_variance_example ev by blast
qed


subsection \<open>Correlation\<close>

lemma jmul_commute: "jmul a b = jmul b a"
  by (cases a; cases b) (simp_all add: mult.commute)

lemma length_price_returns: "length (price_returns p) = length p - 1"
  by (simp add: price_returns_def js_mapi_def js_slice_def Let_def)

lemma correlation_fold_swap:
  "fold (correlation_step r2 r1 m2 m1) l (a, c, b)
     = (case fold (correlation_step r1 r2 m1 m2) l (a, b, c) of (x, y, z) \<Rightarrow> (x, z, y))"
proof (induction l arbitrary: a b c)
  case Nil
  show ?case by simp
next
  case (Cons i l)
  have "correlation_step r2 r1 m2 m1 i (a, c, b)
          = (case correlation_step r1 r2 m1 m2 i (a, b, c) of (x, y, z) \<Rightarrow> (x, z, y))"
    by (simp add: correlation_step_def Let_def jmul_commute)
  then show ?case
    by (cases "correlation_step r1 r2 m1 m2 i (a, b, c)") (simp add: Cons.IH)
qed

lemma calculateCorrelation_commute: "calculateCorrelation p q = calculateCorrelation q p"
proof (cases "length p \<noteq> length q \<or> length p = 0")
  case True
  then show ?thesis by (auto simp: calculateCorrelation_def)
next
  case False
  then have eq: "length p = length q" and ne: "length q \<noteq> 0" by auto
  let ?r1 = "price_returns p" and ?r2 = "price_returns q"
  let ?m1 = "jdiv (js_sum ?r1) (Num (real (length ?r1)))"
  let ?m2 = "jdiv (js_sum ?r2) (Num (real (length ?r2)))"
  have len: "length ?r2 = length ?r1" by (simp add: length_price_returns eq)
  obtain x y z where f: "js_for 0 (length ?r1) (correlation_step ?r1 ?r2 ?m1 ?m2) (Num 0, Num 0, Num 0) = (x, y, z)"
    by (metis prod_cases3)
  have g: "js_for 0 (length ?r2) (correlation_step ?r2 ?r1 ?m2 ?m1) (Num 0, Num 0, Num 0) = (x, z, y)"
    using f correlation_fold_swap[of ?r2 ?r1 ?m2 ?m1 "[0..<length ?r1]" "Num 0" "Num 0" "Num 0"]
    unfolding len js_for_def by simp
  have "calculateCorrelation p q =
          (if jseq (jsqrt (jmul y z)) (Num 0) then Num 0 else jdiv x (jsqrt (jmul y z)))"
    using eq ne unfolding calculateCorrelation_def Let_def f by simp
  moreover have "calculateCorrelation q p =
          (if jseq (jsqrt (jmul z y)) (Num 0) then Num 0 else jdiv x (jsqrt (jmul z y)))"
    using eq ne unfolding calculateCorrelation_def Let_def g by simp
  ultimately show ?thesis by (simp add: jmul_commute[of y z])
qed

lemma collect_Inr: "collect (map (\<lambda>i. Inr (f i)) l) = Inr (map f l)"
  by (induction l) simp_all

lemma collect_cong:
  "(\<And>i. i \<in> set l \<Longrightarrow> g i = Inr (f i)) \<Longrightarrow> collect (map g l) = Inr (map f l)"
  by (induction l) simp_all

lemma object_keys_lookup:
  "k \<in> set (object_keys priceData) \<Longrightarrow> \<exists>prices. map_of priceData k = Some prices"
  by (cases "map_of priceData k") (auto simp: object_keys_def map_of_eq_None_iff)

lemma length_object_keys: "length (object_keys priceData) = card (dom (map_of priceData))"
  by (simp add: object_keys_def length_remdups_card_conv dom_map_of_conv_image_fst)

lemma matrix_entry_Inr:
  assumes "i < length (object_keys priceData)" "j < length (object_keys priceData)"
  shows "matrix_entry priceData (object_keys priceData) i j = Inr (correlation_entry priceData i j)"
proof -
  from assms obtain p q where
    "map_of priceData (object_keys priceData ! i) = Some p"
    "map_of priceData (object_keys priceData ! j) = Some q"
    using object_keys_lookup[of "object_keys priceData ! i" priceData]
          object_keys_lookup[of "object_keys priceData ! j" priceData]
    by auto
  then show ?thesis by (simp add: matrix_entry_def correlation_entry_def)
qed

lemma calculateCorrelationMatrix_Inr:
  "calculateCorrelationMatrix priceData =
     Inr \<lparr>matrix = map (\<lambda>i. map (correlation_entry priceData i) [0..<length (object_keys priceData)])
                       [0..<length (object_keys priceData)],
          symbols = object_keys priceData\<rparr>"
proof -
  let ?n = "length (object_keys priceData)"
  have row: "collect (map (matrix_entry priceData (object_keys priceData) i) [0..<?n])
               = Inr (map (correlation_entry priceData i) [0..<?n])" if "i \<in> set [0..<?n]" for i
    using that by (intro collect_cong matrix_entry_Inr) simp_all
  have "collect (map (\<lambda>i. collect (map (matrix_entry priceData (object_keys priceData) i) [0..<?n])) [0..<?n])
          = Inr (map (\<lambda>i. map (correlation_entry priceData i) [0..<?n]) [0..<?n])"
    by (rule collect_cong) (rule row)
  then show ?thesis by (simp add: calculateCorrelationMatrix_def Let_def)
qed

lemma correlation_entry_sym: "correlation_entry priceData i j = correlation_entry priceData j i"
  by (simp add: correlation_entry_def calculateCorrelation_commute)

text \<open>
  Claim C8. For every \<open>priceData\<close>, \<open>calculateCorrelationMatrix\<close> returns (it does not
  throw) a square matrix whose dimension is the number of symbols, with 1 at every
  diagonal entry, and symmetric, because \<open>calculateCorrelation\<close> gives the same value
  when its two arguments are exchanged.
\<close>

theorem calculateCorrelationMatrix_symmetric:
  "(\<exists>m. calculateCorrelationMatrix priceData = Inr \<lparr>matrix = m, symbols = object_keys priceData\<rparr>
        \<and> length m = card (dom (map_of priceData))
        \<and> (\<forall>i < length m. length (m ! i) = length m \<and> m ! i ! i = Num 1)
        \<and> (\<forall>i < length m. \<forall>j < length m. m ! i ! j = m ! j ! i))
   \<and> calculateCorrelation p q = calculateCorrelation q p"
proof (intro conjI exI)
  let ?n = "length (object_keys priceData)"
  let ?m = "map (\<lambda>i. map (correlation_entry priceData i) [0..<?n]) [0..<?n]"
  show "calculateCorrelationMatrix priceData = Inr \<lparr>matrix = ?m, symbols = object_keys priceData\<rparr>"
    by (rule calculateCorrelationMatrix_Inr)
  show "length ?m = card (dom (map_of priceData))"
    by (simp add: length_object_keys)
  show "\<forall>i < length ?m. length (?m ! i) = length ?m \<and> ?m ! i ! i = Num 1"
    by (simp add: correlation_entry_def)
  show "\<forall>i < length ?m. \<forall>j < length ?m. ?m ! i ! j = ?m ! j ! i"
    by (simp add: correlation_entry_sym)
  show "calculateCorrelation p q = calculateCorrelation q p"
    by (rule calculateCorrelation_commute)
qed


theorem calculateCorrelationMatrix_symmetric_witness:
  "\<exists>m. calculateCorrelationMatrix [(''AAPL'', map Num [1, 2, 8]), (''MSFT'', map Num [1, 4, 8])]
          = Inr \<lparr>matrix = m, symbols = [''AAPL'', ''MSFT'']\<rparr>
       \<and> length m = 2 \<and> 0 < length m \<and> 1 < length m
       \<and> length (m ! 0) = 2 \<and> m ! 0 ! 0 = Num 1 \<and> m ! 1 ! 1 = Num 1 \<and> m ! 0 ! 1 = m ! 1 ! 0"
proof -
  let ?pd = "[(''AAPL'', map Num [1, 2, 8]), (''MSFT'', map Num [1, 4, 8])]"
  have keys: "object_keys ?pd = [''AAPL'', ''MSFT'']" by (simp add: object_keys_def)
  have card: "card (dom (map_of ?pd)) = 2" by (simp add: dom_map_of_conv_image_fst)
  from calculateCorrelationMatrix_symmetric[of ?pd]
  obtain m where m: "calculateCorrelationMatrix ?pd = Inr \<lparr>matrix = m, symbols = object_keys ?pd\<rparr>"
      "length m = card (dom (map_of ?pd))"
      "\<forall>i < length m. length (m ! i) = length m \<and> m ! i ! i = Num 1"
      "\<forall>i < length m. \<forall>j < length m. m ! i ! j = m ! j ! i"
    by blast
  have l: "length m = 2" using m(2) card by simp
  then have i: "0 < length m" "1 < length m" by simp_all
  from m(3) i l have "length (m ! 0) = 2" "m ! 0 ! 0 = Num 1" "m ! 1 ! 1 = Num 1" by auto
  moreover from m(4) i have "m ! 0 ! 1 = m ! 1 ! 0" by blast
  ultimately show ?thesis using m(1) l i unfolding keys by blast
qed

lemma corr_example: "calculateCorrelation (map Num [1, 2, 8]) (map Num [1, 4, 8]) = Num (-1)"
  by (simp add: calculateCorrelation_def price_returns_def js_mapi_def js_slice_def js_at_def js_index_def
       js_sum_def js_for_def correlation_step_def jsub_def Let_def upt_rec[of 0] upt_rec[of 1])


section \<open>Properties of the technical indicators\<close>

subsection \<open>EMA and MACD\<close>

lemma js_at_nth: "js_at xs i = (if i < length xs then xs ! i else Undefined)"
  by (simp add: js_at_def js_index_def)

lemma js_at_in_range: "i < length xs \<Longrightarrow> js_at xs i = xs ! i"
  by (simp add: js_at_nth)

lemma ema_loop_Suc:
  "Suc 0 \<le> m \<Longrightarrow> js_for (Suc 0) (Suc m) (ema_step xs a) init
     = js_for (Suc 0) m (ema_step xs a) init
       @ [jadd (jmul (js_at xs m) a)
               (jmul (js_at (js_for (Suc 0) m (ema_step xs a) init) (m - 1)) (jsub (Num 1) a))]"
  by (simp add: js_for_snoc ema_step_def)

lemma ema_loop_length: "length (js_for (Suc 0) m (ema_step xs a) [x0]) = max (Suc 0) m"
proof (induction m)
  case 0
  show ?case by (simp add: js_for_empty)
next
  case (Suc m)
  show ?case
  proof (cases "1 \<le> m")
    case True
    then show ?thesis using Suc.IH by (simp add: ema_loop_Suc)
  next
    case False
    then show ?thesis by (simp add: js_for_empty)
  qed
qed

lemma ema_loop_prefix:
  "i < max (Suc 0) m \<Longrightarrow> m \<le> m' \<Longrightarrow>
     js_for (Suc 0) m' (ema_step xs a) [x0] ! i = js_for (Suc 0) m (ema_step xs a) [x0] ! i"
proof (induction m')
  case 0
  then show ?case by simp
next
  case (Suc m')
  show ?case
  proof (cases "m = Suc m'")
    case True
    then show ?thesis by simp
  next
    case False
    with Suc.prems have le: "m \<le> m'" by simp
    show ?thesis
    proof (cases "1 \<le> m'")
      case True
      have "i < length (js_for (Suc 0) m' (ema_step xs a) [x0])"
        using Suc.prems(1) le by (simp add: ema_loop_length)
      then show ?thesis using Suc.IH[OF Suc.prems(1) le] True
        by (simp add: ema_loop_Suc nth_append)
    next
      case False
      then have "m' = 0" "m = 0" using le by simp_all
      then show ?thesis by (simp add: js_for_empty)
    qed
  qed
qed

lemma ema_multiplier: "jdiv (Num 2) (jadd (Num (real p)) (Num 1)) = Num (2 / (real p + 1))"
proof -
  have "real p + 1 \<noteq> 0" by (simp add: add_nonneg_eq_0_iff)
  then show ?thesis by simp
qed

lemma length_calculateEMA: "length (calculateEMA xs p) = max (Suc 0) (length xs)"
  by (simp add: calculateEMA_def Let_def ema_loop_length)

lemma calculateEMA_first: "xs \<noteq> [] \<Longrightarrow> calculateEMA xs p ! 0 = xs ! 0"
proof -
  assume ne: "xs \<noteq> []"
  let ?a = "jdiv (Num 2) (jadd (Num (real p)) (Num 1))"
  have "js_for (Suc 0) (length xs) (ema_step xs ?a) [js_at xs 0] ! 0
          = js_for (Suc 0) 0 (ema_step xs ?a) [js_at xs 0] ! 0"
    by (rule ema_loop_prefix) simp_all
  then show ?thesis using ne by (simp add: calculateEMA_def Let_def js_for_empty js_at_def js_index_def)
qed

lemma calculateEMA_step:
  assumes i: "1 \<le> i" "i < length xs"
  shows "calculateEMA xs p ! i =
           jadd (jmul (Num (2 / (real p + 1))) (xs ! i))
                (jmul (jsub (Num 1) (Num (2 / (real p + 1)))) (calculateEMA xs p ! (i - 1)))"
proof -
  let ?a = "Num (2 / (real p + 1))"
  let ?E = "\<lambda>m. js_for (Suc 0) m (ema_step xs ?a) [js_at xs 0]"
  have E: "calculateEMA xs p = ?E (length xs)"
    by (simp only: calculateEMA_def Let_def ema_multiplier One_nat_def)
  have leni: "length (?E i) = i" using i by (simp add: ema_loop_length)
  have "?E (length xs) ! i = ?E (Suc i) ! i"
    using i by (intro ema_loop_prefix) simp_all
  also have "\<dots> = jadd (jmul (js_at xs i) ?a) (jmul (js_at (?E i) (i - 1)) (jsub (Num 1) ?a))"
    using i(1) leni by (simp add: ema_loop_Suc nth_append)
  also have "js_at xs i = xs ! i" using i by (simp add: js_at_nth)
  also have "js_at (?E i) (i - 1) = ?E i ! (i - 1)"
  proof (rule js_at_in_range)
    show "i - 1 < length (?E i)" unfolding leni using i by simp
  qed
  also have "?E i ! (i - 1) = ?E (length xs) ! (i - 1)"
    using i by (intro ema_loop_prefix[symmetric]) simp_all
  finally show ?thesis unfolding E
    by (simp only: jmul_commute[of ?a] jmul_commute[of "jsub (Num 1) ?a"])
qed

lemma length_js_mapi: "length (js_mapi f xs) = length xs"
  by (simp add: js_mapi_def)

lemma nth_js_mapi: "i < length xs \<Longrightarrow> js_mapi f xs ! i = f (xs ! i) i"
  by (simp add: js_mapi_def)


text \<open>
  Claim C7. For every array of prices with length \<open>n \<ge> slowPeriod\<close>, which is not empty
  as the slow period is at least one bar, \<open>calculateMACD\<close> returns three arrays of length
  \<open>n\<close> with \<open>macd[i] = emaFast[i] - emaSlow[i]\<close> and \<open>histogram[i] = macd[i] - signal[i]\<close>
  at every index, the signal line being the EMA of the MACD line; for \<open>n < slowPeriod\<close> it
  returns three empty arrays. The EMA of a non-empty array \<open>x\<close> has the length of \<open>x\<close>,
  starts with \<open>x[0]\<close> and obeys \<open>ema[i] = a * x[i] + (1 - a) * ema[i-1]\<close> with
  \<open>a = 2 / (period + 1)\<close>.
\<close>

theorem calculateMACD_recurrences:
  "(prices \<noteq> [] \<and> slowPeriod \<le> length prices \<longrightarrow>
      length (macd (calculateMACD prices fastPeriod slowPeriod signalPeriod)) = length prices
    \<and> length (signal (calculateMACD prices fastPeriod slowPeriod signalPeriod)) = length prices
    \<and> length (histogram (calculateMACD prices fastPeriod slowPeriod signalPeriod)) = length prices
    \<and> signal (calculateMACD prices fastPeriod slowPeriod signalPeriod)
          = calculateEMA (macd (calculateMACD prices fastPeriod slowPeriod signalPeriod)) signalPeriod
    \<and> (\<forall>i < length prices.
          macd (calculateMACD prices fastPeriod slowPeriod signalPeriod) ! i
            = jsub (calculateEMA prices fastPeriod ! i) (calculateEMA prices slowPeriod ! i)
        \<and> histogram (calculateMACD prices fastPeriod slowPeriod signalPeriod) ! i
            = jsub (macd (calculateMACD prices fastPeriod slowPeriod signalPeriod) ! i)
                   (signal (calculateMACD prices fastPeriod slowPeriod signalPeriod) ! i)))
   \<and> (length prices < slowPeriod \<longrightarrow>
        calculateMACD prices fastPeriod slowPeriod signalPeriod
          = \<lparr>macd = [], signal = [], histogram = []\<rparr>)
   \<and> (xs \<noteq> [] \<longrightarrow>
        length (calculateEMA xs period) = length xs
      \<and> calculateEMA xs period ! 0 = xs ! 0
      \<and> (\<forall>i. 1 \<le> i \<and> i < length xs \<longrightarrow>
            calculateEMA xs period ! i
              = jadd (jmul (Num (2 / (real period + 1))) (xs ! i))
                     (jmul (jsub (Num 1) (Num (2 / (real period + 1))))
                           (calculateEMA xs period ! (i - 1)))))"
proof (intro conjI impI allI)
  assume a: "prices \<noteq> [] \<and> slowPeriod \<le> length prices"
  let ?r = "calculateMACD prices fastPeriod slowPeriod signalPeriod"
  let ?f = "calculateEMA prices fastPeriod" and ?s = "calculateEMA prices slowPeriod"
  let ?m = "js_mapi (\<lambda>fast i. jsub fast (js_at ?s i)) ?f"
  let ?g = "calculateEMA ?m signalPeriod"
  let ?h = "js_mapi (\<lambda>macdVal i. jsub macdVal (js_at ?g i)) ?m"
  have r: "?r = \<lparr>macd = ?m, signal = ?g, histogram = ?h\<rparr>"
    using a by (simp add: calculateMACD_def Let_def)
  have n: "max (Suc 0) (length prices) = length prices" using a by (cases prices) simp_all
  have lm: "length ?m = length prices" by (simp add: length_js_mapi length_calculateEMA n)
  have lg: "length ?g = length prices" by (simp add: length_calculateEMA lm n)
  show "length (macd ?r) = length prices" unfolding r using lm by simp
  show "length (signal ?r) = length prices" unfolding r using lg by simp
  show "length (histogram ?r) = length prices" unfolding r using lm by (simp add: length_js_mapi)
  show "signal ?r = calculateEMA (macd ?r) signalPeriod" unfolding r by simp
  fix i assume i: "i < length prices"
  have "?m ! i = jsub (?f ! i) (?s ! i)"
    using i by (simp add: nth_js_mapi length_calculateEMA n js_at_nth)
  then show "macd ?r ! i = jsub (?f ! i) (?s ! i)" unfolding r by simp
  have "?h ! i = jsub (?m ! i) (?g ! i)"
    using i lm lg by (simp add: nth_js_mapi js_at_nth)
  then show "histogram ?r ! i = jsub (macd ?r ! i) (signal ?r ! i)" unfolding r by simp
next
  assume "length prices < slowPeriod"
  then show "calculateMACD prices fastPeriod slowPeriod signalPeriod
          = \<lparr>macd = [], signal = [], histogram = []\<rparr>"
    by (simp add: calculateMACD_def)
next
  assume "xs \<noteq> []"
  then show "length (calculateEMA xs period) = length xs"
    by (cases xs) (simp_all add: length_calculateEMA)
next
  assume "xs \<noteq> []"
  then show "calculateEMA xs period ! 0 = xs ! 0" by (rule calculateEMA_first)
next
  fix i assume "xs \<noteq> []" "1 \<le> i \<and> i < length xs"
  then show "calculateEMA xs period ! i
              = jadd (jmul (Num (2 / (real period + 1))) (xs ! i))
                     (jmul (jsub (Num 1) (Num (2 / (real period + 1))))
                           (calculateEMA xs period ! (i - 1)))"
    using calculateEMA_step[of i xs period] by simp
qed

lemma ema_example: "calculateEMA [Num 1, Num 2, Num 4] 3 = [Num 1, Num (3 / 2), Num (11 / 4)]"
  by (simp add: calculateEMA_def js_for_def ema_step_def js_at_nth jsub_def upt_rec[of "Suc 0"] upt_rec[of 2])

theorem calculateMACD_recurrences_witness:
  "[Num 1, Num 2, Num 4] \<noteq> [] \<and> 3 \<le> length [Num 1, Num 2, Num 4]
   \<and> length (macd (calculateMACD [Num 1, Num 2, Num 4] 1 3 1)) = 3
   \<and> length (histogram (calculateMACD [Num 1, Num 2, Num 4] 1 3 1)) = 3
   \<and> 2 < length [Num 1, Num 2, Num 4]
   \<and> macd (calculateMACD [Num 1, Num 2, Num 4] 1 3 1) ! 2
       = jsub (calculateEMA [Num 1, Num 2, Num 4] 1 ! 2) (calculateEMA [Num 1, Num 2, Num 4] 3 ! 2)
   \<and> length [Num 1, Num 2] < 3
   \<and> calculateMACD [Num 1, Num 2] 1 3 1 = \<lparr>macd = [], signal = [], histogram = []\<rparr>
   \<and> (1::nat) \<le> 2
   \<and> calculateEMA [Num 1, Num 2, Num 4] 3 ! 2
       = jadd (jmul (Num (2 / (real 3 + 1))) (Num 4))
              (jmul (jsub (Num 1) (Num (2 / (real 3 + 1)))) (calculateEMA [Num 1, Num 2, Num 4] 3 ! (2 - 1)))
   \<and> calculateEMA [Num 1, Num 2, Num 4] 3 ! 2 = Num (11 / 4)"
  using calculateMACD_recurrences[of "[Num 1, Num 2, Num 4]" 3 1 1 "[Num 1, Num 2, Num 4]" 3]
        calculateMACD_recurrences[of "[Num 1, Num 2]" 3 1 1 "[Num 1, Num 2, Num 4]" 3]
  by (simp add: ema_example jsub_def)


subsection \<open>Bollinger bands\<close>



















subsection \<open>RSI\<close>

lemma gains_losses_fold_length:
  "length (fst (fold (gains_losses_step prices) l st)) = length (fst st) + length l"
proof (induction l arbitrary: st)
  case Nil
  show ?case by simp
next
  case (Cons i l)
  have "length (fst (gains_losses_step prices i st)) = Suc (length (fst st))"
    by (cases st) (simp add: gains_losses_step_def Let_def)
  then show ?case by (simp add: Cons.IH)
qed

lemma rsi_fold_length:
  "length (fst (fold (rsi_step gains losses period) l st)) = length (fst st) + length l"
proof (induction l arbitrary: st)
  case Nil
  show ?case by simp
next
  case (Cons i l)
  have "length (fst (rsi_step gains losses period i st)) = Suc (length (fst st))"
    by (cases st rule: prod_cases3) (simp add: rsi_step_def Let_def)
  then show ?case by (simp add: Cons.IH)
qed

text \<open>The number of values: for \<open>n \<ge> period + 1\<close> prices, \<open>calculateRSI\<close> returns
  \<open>n - period - 1\<close> values, and the empty array for fewer prices.\<close>

lemma length_calculateRSI:
  assumes "period + 1 \<le> length prices"
  shows "length (calculateRSI prices period) = length prices - period - 1"
proof -
  obtain gains losses where gl:
    "js_for 1 (length prices) (gains_losses_step prices) ([], []) = (gains, losses)"
    by (cases "js_for 1 (length prices) (gains_losses_step prices) ([], [])") blast
  have "length (fst (js_for 1 (length prices) (gains_losses_step prices) ([], []))) = length prices - 1"
    unfolding js_for_def gains_losses_fold_length by simp
  then have lg: "length gains = length prices - 1" using gl by simp
  have "calculateRSI prices period =
      fst (js_for period (length gains) (rsi_step gains losses period)
             ([], ddiv (dsum (js_slice gains 0 (int period))) (Num (real period)),
                  ddiv (dsum (js_slice losses 0 (int period))) (Num (real period))))"
    using assms unfolding calculateRSI_def gl Let_def by simp
  then show ?thesis unfolding js_for_def by (simp add: rsi_fold_length lg)
qed

lemma calculateRSI_short: "length prices < period + 1 \<Longrightarrow> calculateRSI prices period = []"
  by (simp add: calculateRSI_def)

text \<open>
  Claim C5. The lengths are as claimed (the two lemmas above), but the values need not
  lie in \<open>[0, 100]\<close>: on sixteen equal prices with the default period 14, so with
  \<open>n = period + 2\<close>, no price has moved, both smoothed averages are 0, the relative
  strength is \<open>0 / 0 = NaN\<close>, and the one value returned is \<open>NaN\<close>, which is neither at
  least 0 nor at most 100. The division \<^verbatim>\<open>avgGain / avgLoss\<close> is not guarded, and the page
  plots the values on the axis \<open>[0, 100]\<close>.
\<close>

theorem calculateRSI_flat_prices:
  "14 + 2 \<le> length (replicate 16 (Num 100))
   \<and> calculateRSI (replicate 16 (Num 100)) 14 = [NaN]
   \<and> \<not> jle (Num 0) (calculateRSI (replicate 16 (Num 100)) 14 ! 0)
   \<and> \<not> jle (calculateRSI (replicate 16 (Num 100)) 14 ! 0) (Num 100)"
proof -
  have g: "js_for 1 16 (gains_losses_step (replicate 16 (Num 100))) ([], [])
      = (replicate 15 (Num 0), replicate 15 (Num 0))"
    by (simp add: js_for_def gains_losses_step_def js_at_def js_index_def dsub_def jsub_def
          jgt_def Let_def upt_rec[of _ 16] numeral_eq_Suc)
  have s: "dsum (js_slice (replicate 15 (Num 0)) 0 (int 14)) = Num 0"
    by (simp add: js_slice_def dsum_def dadd_def numeral_eq_Suc)
  have len: "length (replicate 16 (Num 100)) = 16" by simp
  have r: "calculateRSI (replicate 16 (Num 100)) 14 = [NaN]"
    unfolding calculateRSI_def Let_def len g prod.case s
    by (simp add: js_for_def rsi_step_def js_at_def js_index_def ddiv_def dadd_def dmul_def
          dsub_def jsub_def Let_def)
  show ?thesis unfolding r by simp
qed


section \<open>Properties of the routines over the store\<close>

lemma leaves_unchanged_append: "leaves_unchanged h (h @ r)"
  by (simp add: leaves_unchanged_def)

lemma leaves_unchanged_refl: "leaves_unchanged h h"
  by (simp add: leaves_unchanged_def)

lemma leaves_unchanged_nth: "leaves_unchanged h h' \<Longrightarrow> a < length h \<Longrightarrow> h' ! a = h ! a"
  by (metis leaves_unchanged_def nth_take)

lemma h_sort_fresh: "h_sort (length h) (h @ xs # r) = h @ sort xs # r"
  by (simp add: h_sort_def)

lemma h_push_fresh0: "h_push (length h) v (h @ a # r) = h @ (a @ [v]) # r"
  by (simp add: h_push_def)

lemma h_push_fresh1: "h_push (Suc (length h)) v (h @ a # b # r) = h @ a # (b @ [v]) # r"
  by (simp add: h_push_def nth_append list_update_append)

lemma h_push_fresh2:
  "h_push (Suc (Suc (length h))) v (h @ a # b # c # r) = h @ a # b # (c @ [v]) # r"
  by (simp add: h_push_def nth_append list_update_append)

lemma nth_fresh1: "(h @ a # b # r) ! Suc (length h) = b"
  by (simp add: nth_append)

lemma nth_fresh2: "(h @ a # b # c # r) ! Suc (Suc (length h)) = c"
  by (simp add: nth_append)

lemma calculateVaR_heap_eq:
  assumes "returns < length h"
  shows "calculateVaR_heap returns confidence h =
           (calculateVaR (h ! returns) confidence,
            if h ! returns = [] then h else h @ [sort (h ! returns)])"
  by (simp add: calculateVaR_heap_def calculateVaR_def h_new_def h_sort_fresh js_sorted_copy_def Let_def)

lemma calculateCVaR_heap_eq:
  assumes "returns < length h"
  shows "calculateCVaR_heap returns confidence h =
           (calculateCVaR (h ! returns) confidence,
            if h ! returns = [] then h
            else h @ [sort (h ! returns),
                      js_slice_to (sort (h ! returns)) 0
                        (js_floor (dmul (Num confidence) (Num (real (length (h ! returns))))))])"
proof (cases "h ! returns = []")
  case True
  then show ?thesis by (simp add: calculateCVaR_heap_def calculateCVaR_def)
next
  case False
  have sl: "js_slice_to (map Num xs) s e = map Num (js_slice_to xs s e)" for xs :: "real list" and s e
    by (cases e) (simp_all add: js_slice_def Let_def take_map drop_map)
  have third: "(h @ [a, b]) ! Suc (length h) = b" for a b :: "real list"
    by (rule nth_fresh1)
  show ?thesis
    using False
    by (simp add: calculateCVaR_heap_def calculateCVaR_def h_new_def h_sort_fresh js_sorted_copy_def
          Let_def sl third)
qed

lemma calculateMaxDrawdown_heap_eq:
  "calculateMaxDrawdown_heap prices h = (calculateMaxDrawdown (h ! prices), h)"
  by (simp add: calculateMaxDrawdown_heap_def calculateMaxDrawdown_def)

lemma calculateSharpeRatio_heap_eq:
  "calculateSharpeRatio_heap returns riskFreeRate h = (calculateSharpeRatio (h ! returns) riskFreeRate, h)"
  by (simp add: calculateSharpeRatio_heap_def calculateSharpeRatio_def Let_def)

lemma price_returns_heap_eq:
  assumes "prices < length h"
  shows "price_returns_heap prices h =
           (Suc (length h),
            h @ [js_slice (h ! prices) 1 (int (length (h ! prices))), price_returns (h ! prices)])"
  using assms
  by (simp add: price_returns_heap_def price_returns_def h_new_def nth_append)

lemma calculateCorrelation_heap_eq:
  assumes "prices1 < length h" "prices2 < length h"
  shows "calculateCorrelation_heap prices1 prices2 h =
           (calculateCorrelation (h ! prices1) (h ! prices2),
            if length (h ! prices1) \<noteq> length (h ! prices2) \<or> length (h ! prices1) = 0 then h
            else h @ [js_slice (h ! prices1) 1 (int (length (h ! prices1))), price_returns (h ! prices1),
                      js_slice (h ! prices2) 1 (int (length (h ! prices2))), price_returns (h ! prices2)])"
proof (cases "length (h ! prices1) \<noteq> length (h ! prices2) \<or> length (h ! prices1) = 0")
  case True
  then show ?thesis by (auto simp: calculateCorrelation_heap_def calculateCorrelation_def)
next
  case False
  let ?s1 = "js_slice (h ! prices1) 1 (int (length (h ! prices1)))"
  let ?s2 = "js_slice (h ! prices2) 1 (int (length (h ! prices2)))"
  let ?h1 = "h @ [?s1, price_returns (h ! prices1)]"
  let ?h2 = "?h1 @ [?s2, price_returns (h ! prices2)]"
  have p2: "prices2 < length ?h1" using assms by simp
  have r1: "price_returns_heap prices1 h = (Suc (length h), ?h1)"
    using assms(1) by (rule price_returns_heap_eq)
  have r2: "price_returns_heap prices2 ?h1 = (Suc (length ?h1), ?h2)"
    using price_returns_heap_eq[OF p2] assms by (simp add: nth_append)
  have a1: "?h2 ! Suc (length h) = price_returns (h ! prices1)"
    by (simp add: nth_append)
  have a2: "?h2 ! Suc (length ?h1) = price_returns (h ! prices2)"
    by (simp add: nth_append)
  from False have ne: "length (h ! prices1) = length (h ! prices2)" "h ! prices1 \<noteq> []" "h ! prices2 \<noteq> []"
    by auto
  let ?R1 = "price_returns (h ! prices1)" and ?R2 = "price_returns (h ! prices2)"
  obtain x y z where f:
    "js_for 0 (length ?R1)
       (correlation_step ?R1 ?R2 (jdiv (js_sum ?R1) (Num (real (length ?R1))))
          (jdiv (js_sum ?R2) (Num (real (length ?R2))))) (Num 0, Num 0, Num 0) = (x, y, z)"
    by (metis prod_cases3)
  have pure: "calculateCorrelation (h ! prices1) (h ! prices2) =
          (if jseq (jsqrt (jmul y z)) (Num 0) then Num 0 else jdiv x (jsqrt (jmul y z)))"
    unfolding calculateCorrelation_def Let_def f using ne by simp
  have heap: "calculateCorrelation_heap prices1 prices2 h =
          (if jseq (jsqrt (jmul y z)) (Num 0) then Num 0 else jdiv x (jsqrt (jmul y z)), ?h2)"
    unfolding calculateCorrelation_heap_def r1 r2 prod.case Let_def a1 a2 f using ne by simp
  show ?thesis unfolding heap pure using ne by simp
qed

lemma ema_fold_heap:
  assumes "prices < length h"
  shows "fold (ema_step_heap prices (length h) a) l (h @ [e])
           = h @ [fold (ema_step (h ! prices) a) l e]"
proof (induction l arbitrary: e)
  case Nil
  show ?case by simp
next
  case (Cons i l)
  have "ema_step_heap prices (length h) a i (h @ [e]) = h @ [ema_step (h ! prices) a i e]"
    using assms by (simp add: ema_step_heap_def ema_step_def h_push_fresh0 nth_append)
  then show ?case by (simp add: Cons.IH)
qed

lemma calculateEMA_heap_eq:
  assumes "prices < length h"
  shows "calculateEMA_heap prices period h = (length h, h @ [calculateEMA (h ! prices) period])"
  using assms
  by (simp add: calculateEMA_heap_def calculateEMA_def h_new_def Let_def js_for_def
        ema_fold_heap nth_append)

lemma calculateMACD_heap_eq:
  assumes "prices < length h"
  shows "calculateMACD_heap prices fastPeriod slowPeriod signalPeriod h =
           (if length (h ! prices) < slowPeriod
            then (\<lparr>macd_ref = length h, signal_ref = length h + 1, histogram_ref = length h + 2\<rparr>,
                  h @ [[], [], []])
            else (\<lparr>macd_ref = length h + 2, signal_ref = length h + 3, histogram_ref = length h + 4\<rparr>,
                  h @ [calculateEMA (h ! prices) fastPeriod,
                       calculateEMA (h ! prices) slowPeriod,
                       macd (calculateMACD (h ! prices) fastPeriod slowPeriod signalPeriod),
                       signal (calculateMACD (h ! prices) fastPeriod slowPeriod signalPeriod),
                       histogram (calculateMACD (h ! prices) fastPeriod slowPeriod signalPeriod)]))"
proof (cases "length (h ! prices) < slowPeriod")
  case True
  then show ?thesis by (simp add: calculateMACD_heap_def h_new_def)
next
  case False
  let ?P = "h ! prices"
  let ?f = "calculateEMA ?P fastPeriod" and ?s = "calculateEMA ?P slowPeriod"
  let ?m = "js_mapi (\<lambda>fast i. jsub fast (js_at ?s i)) ?f"
  let ?g = "calculateEMA ?m signalPeriod"
  let ?hi = "js_mapi (\<lambda>macdVal i. jsub macdVal (js_at ?g i)) ?m"
  let ?h1 = "h @ [?f]"
  let ?h2 = "?h1 @ [?s]"
  let ?h3 = "?h2 @ [?m]"
  let ?h4 = "?h3 @ [?g]"
  have e1: "calculateEMA_heap prices fastPeriod h = (length h, ?h1)"
    using assms by (rule calculateEMA_heap_eq)
  have "prices < length ?h1" using assms by simp
  from calculateEMA_heap_eq[OF this, of slowPeriod]
  have e2: "calculateEMA_heap prices slowPeriod ?h1 = (length ?h1, ?h2)"
    using assms by (simp add: nth_append)
  have n3: "h_new (js_mapi (\<lambda>fast i. jsub fast (js_at (?h2 ! length ?h1) i)) (?h2 ! length h)) ?h2
              = (length ?h2, ?h3)"
    by (simp add: h_new_def nth_append)
  have "length ?h2 < length ?h3" by simp
  from calculateEMA_heap_eq[OF this, of signalPeriod]
  have e4: "calculateEMA_heap (length ?h2) signalPeriod ?h3 = (length ?h3, ?h4)"
    by (simp add: nth_append)
  have n5: "h_new (js_mapi (\<lambda>macdVal i. jsub macdVal (js_at (?h4 ! length ?h3) i)) (?h4 ! length ?h2)) ?h4
              = (length ?h4, ?h4 @ [?hi])"
    by (simp add: h_new_def nth_append)
  have heap: "calculateMACD_heap prices fastPeriod slowPeriod signalPeriod h =
          (\<lparr>macd_ref = length ?h2, signal_ref = length ?h3, histogram_ref = length ?h4\<rparr>, ?h4 @ [?hi])"
    unfolding calculateMACD_heap_def e1 e2 n3 e4 n5 prod.case using False by simp
  have pure: "calculateMACD ?P fastPeriod slowPeriod signalPeriod
                = \<lparr>macd = ?m, signal = ?g, histogram = ?hi\<rparr>"
    using False by (simp add: calculateMACD_def Let_def)
  show ?thesis unfolding heap pure using False by simp
qed

lemma gains_losses_fold_heap:
  assumes "prices < length h"
  shows "fold (gains_losses_step_heap prices (length h) (Suc (length h))) l (h @ [g, ls])
           = (case fold (gains_losses_step (h ! prices)) l (g, ls) of (g', ls') \<Rightarrow> h @ [g', ls'])"
proof (induction l arbitrary: g ls)
  case Nil
  show ?case by simp
next
  case (Cons i l)
  have "gains_losses_step_heap prices (length h) (Suc (length h)) i (h @ [g, ls])
          = (case gains_losses_step (h ! prices) i (g, ls) of (g', ls') \<Rightarrow> h @ [g', ls'])"
    using assms
    by (simp add: gains_losses_step_heap_def gains_losses_step_def Let_def h_push_fresh0 h_push_fresh1
          nth_append)
  then show ?case
    by (cases "gains_losses_step (h ! prices) i (g, ls)") (simp add: Cons.IH)
qed

lemma rsi_fold_heap:
  "fold (rsi_step_heap (length h) (Suc (length h)) (Suc (Suc (length h))) period) l
        (a, b, h @ G # L # r # rest)
     = (case fold (rsi_step G L period) l (r, a, b) of
          (r', a', b') \<Rightarrow> (a', b', h @ G # L # r' # rest))"
proof (induction l arbitrary: a b r)
  case Nil
  show ?case by simp
next
  case (Cons i l)
  have "rsi_step_heap (length h) (Suc (length h)) (Suc (Suc (length h))) period i
          (a, b, h @ G # L # r # rest)
        = (case rsi_step G L period i (r, a, b) of
             (r', a', b') \<Rightarrow> (a', b', h @ G # L # r' # rest))"
    by (simp add: rsi_step_heap_def rsi_step_def Let_def h_push_fresh2 nth_fresh1)
  then show ?case
    by (cases "rsi_step G L period i (r, a, b)" rule: prod_cases3) (simp add: Cons.IH)
qed

lemma calculateRSI_heap_eq:
  assumes "prices < length h"
  shows "calculateRSI_heap prices period h =
           (if length (h ! prices) < period + 1 then (length h, h @ [[]])
            else case js_for 1 (length (h ! prices)) (gains_losses_step (h ! prices)) ([], []) of
                   (gains, losses) \<Rightarrow>
                     (length h + 2,
                      h @ [gains, losses, calculateRSI (h ! prices) period,
                           js_slice gains 0 (int period), js_slice losses 0 (int period)]))"
proof (cases "length (h ! prices) < period + 1")
  case True
  then show ?thesis by (simp add: calculateRSI_heap_def h_new_def)
next
  case False
  let ?P = "h ! prices"
  obtain G L where gl: "js_for 1 (length ?P) (gains_losses_step ?P) ([], []) = (G, L)"
    by (cases "js_for 1 (length ?P) (gains_losses_step ?P) ([], [])") blast
  let ?a = "ddiv (dsum (js_slice G 0 (int period))) (Num (real period))"
  let ?b = "ddiv (dsum (js_slice L 0 (int period))) (Num (real period))"
  obtain r a' b' where loop: "js_for period (length G) (rsi_step G L period) ([], ?a, ?b) = (r, a', b')"
    by (metis prod_cases3)
  have pure: "calculateRSI ?P period = r"
    using False unfolding calculateRSI_def gl Let_def prod.case loop by simp
  have l1: "js_for (Suc 0) (length ?P) (gains_losses_step_heap prices (length h) (Suc (length h))) (h @ [[], []])
              = h @ [G, L]"
    using gains_losses_fold_heap[OF assms, of "[1..<length ?P]" "[]" "[]"] gl
    by (simp add: js_for_def)
  have l2: "js_for period (length G)
              (rsi_step_heap (length h) (Suc (length h)) (Suc (Suc (length h))) period)
              (?a, ?b, h @ [G, L, [], js_slice G 0 (int period), js_slice L 0 (int period)])
            = (a', b', h @ [G, L, r, js_slice G 0 (int period), js_slice L 0 (int period)])"
    using rsi_fold_heap[of h period "[period..<length G]" ?a ?b G L "[]"
            "[js_slice G 0 (int period), js_slice L 0 (int period)]"] loop
    by (simp add: js_for_def)
  have heap: "calculateRSI_heap prices period h =
      (length h + 2, h @ [G, L, r, js_slice G 0 (int period), js_slice L 0 (int period)])"
    using False assms
    by (simp add: calculateRSI_heap_def h_new_def Let_def nth_append l1 l2)
  show ?thesis using False unfolding heap gl pure by simp
qed

lemma bollinger_fold_heap:
  assumes "prices < length h"
  shows "fold (bollinger_step_heap prices (length h) (Suc (length h)) (Suc (Suc (length h))) period stdDev) l
           (h @ a # b # c # S)
         = (case fold (bollinger_step (h ! prices) period stdDev) l (a, b, c) of
              (a', b', c') \<Rightarrow>
                h @ a' # b' # c' # (S @ map (\<lambda>i. js_slice (h ! prices) (i - int period + 1) (i + 1)) l))"
proof (induction l arbitrary: a b c S)
  case Nil
  show ?case by simp
next
  case (Cons i l)
  let ?sl = "js_slice (h ! prices) (i - int period + 1) (i + 1)"
  have new: "h_new (js_slice ((h @ a # b # c # S) ! prices) (i - int period + 1) (i + 1)) (h @ a # b # c # S)
               = (length (h @ a # b # c # S), h @ a # b # c # (S @ [?sl]))"
    using assms by (simp add: h_new_def nth_append)
  have rd: "(h @ a # b # c # (S @ [?sl])) ! length (h @ a # b # c # S) = ?sl"
    by (metis append.assoc append_Cons nth_append_length)
  have "bollinger_step_heap prices (length h) (Suc (length h)) (Suc (Suc (length h))) period stdDev i
          (h @ a # b # c # S)
        = (case bollinger_step (h ! prices) period stdDev i (a, b, c) of
             (a', b', c') \<Rightarrow> h @ a' # b' # c' # (S @ [?sl]))"
    unfolding bollinger_step_heap_def new prod.case rd
    by (simp add: bollinger_step_def Let_def h_push_fresh0 h_push_fresh1 h_push_fresh2)
  then show ?case
    by (cases "bollinger_step (h ! prices) period stdDev i (a, b, c)" rule: prod_cases3)
       (simp add: Cons.IH)
qed

lemma calculateBollingerBands_heap_eq:
  assumes "prices < length h"
  shows "calculateBollingerBands_heap prices period stdDev h =
           (if length (h ! prices) < period
            then (\<lparr>upper_ref = length h, middle_ref = length h + 1, lower_ref = length h + 2\<rparr>,
                  h @ [[], [], []])
            else (\<lparr>upper_ref = length h + 1, middle_ref = length h, lower_ref = length h + 2\<rparr>,
                  h @ middle (calculateBollingerBands (h ! prices) period stdDev)
                    # upper (calculateBollingerBands (h ! prices) period stdDev)
                    # lower (calculateBollingerBands (h ! prices) period stdDev)
                    # map (\<lambda>i. js_slice (h ! prices) (i - int period + 1) (i + 1))
                        [int period - 1..int (length (h ! prices)) - 1]))"
proof (cases "length (h ! prices) < period")
  case True
  then show ?thesis by (simp add: calculateBollingerBands_heap_def h_new_def)
next
  case False
  let ?P = "h ! prices"
  let ?l = "[int period - 1..int (length ?P) - 1]"
  obtain a b c where loop: "fold (bollinger_step ?P period stdDev) ?l ([], [], []) = (a, b, c)"
    by (metis prod_cases3)
  have pure: "calculateBollingerBands ?P period stdDev = \<lparr>upper = b, middle = a, lower = c\<rparr>"
    using False by (simp add: calculateBollingerBands_def js_for_int_def loop)
  have l1: "fold (bollinger_step_heap prices (length h) (Suc (length h)) (Suc (Suc (length h))) period stdDev)
              ?l (h @ [[], [], []])
            = h @ a # b # c # map (\<lambda>i. js_slice ?P (i - int period + 1) (i + 1)) ?l"
    using bollinger_fold_heap[OF assms, of period stdDev ?l "[]" "[]" "[]" "[]"] loop by simp
  have heap: "calculateBollingerBands_heap prices period stdDev h =
      (\<lparr>upper_ref = length h + 1, middle_ref = length h, lower_ref = length h + 2\<rparr>,
       h @ a # b # c # map (\<lambda>i. js_slice ?P (i - int period + 1) (i + 1)) ?l)"
    using False assms
    by (simp add: calculateBollingerBands_heap_def h_new_def js_for_int_def nth_append l1)
  show ?thesis using False unfolding heap pure by simp
qed

text \<open>
  Claim C9. Every numeric routine is stateless. Run on any store, with its array
  arguments any arrays of the store, a routine leaves every array that was in the store
  as it was (so \<open>calculateVaR\<close> and \<open>calculateCVaR\<close> sort a copy, and the argument array
  keeps its order), and what it returns (the number, or the contents of the arrays it
  returns, which are new arrays) is the value of the function of the argument arrays'
  contents and of the scalar arguments alone.
\<close>

theorem numeric_routines_stateless:
  "(returns < length hr \<longrightarrow>
       leaves_unchanged hr (snd (calculateVaR_heap returns confidence hr))
     \<and> snd (calculateVaR_heap returns confidence hr) ! returns = hr ! returns
     \<and> fst (calculateVaR_heap returns confidence hr) = calculateVaR (hr ! returns) confidence
     \<and> leaves_unchanged hr (snd (calculateCVaR_heap returns confidence hr))
     \<and> snd (calculateCVaR_heap returns confidence hr) ! returns = hr ! returns
     \<and> fst (calculateCVaR_heap returns confidence hr) = calculateCVaR (hr ! returns) confidence)
   \<and> (prices < length h \<and> prices2 < length h \<longrightarrow>
       leaves_unchanged h (snd (calculateMaxDrawdown_heap prices h))
     \<and> fst (calculateMaxDrawdown_heap prices h) = calculateMaxDrawdown (h ! prices)
     \<and> leaves_unchanged h (snd (calculateSharpeRatio_heap prices riskFreeRate h))
     \<and> fst (calculateSharpeRatio_heap prices riskFreeRate h)
         = calculateSharpeRatio (h ! prices) riskFreeRate
     \<and> leaves_unchanged h (snd (calculateCorrelation_heap prices prices2 h))
     \<and> fst (calculateCorrelation_heap prices prices2 h)
         = calculateCorrelation (h ! prices) (h ! prices2)
     \<and> leaves_unchanged h (snd (calculateRSI_heap prices period h))
     \<and> length h \<le> fst (calculateRSI_heap prices period h)
     \<and> snd (calculateRSI_heap prices period h) ! fst (calculateRSI_heap prices period h)
         = calculateRSI (h ! prices) period
     \<and> leaves_unchanged h (snd (calculateEMA_heap prices period h))
     \<and> length h \<le> fst (calculateEMA_heap prices period h)
     \<and> snd (calculateEMA_heap prices period h) ! fst (calculateEMA_heap prices period h)
         = calculateEMA (h ! prices) period
     \<and> leaves_unchanged h (snd (calculateMACD_heap prices fastPeriod slowPeriod signalPeriod h))
     \<and> length h \<le> macd_ref (fst (calculateMACD_heap prices fastPeriod slowPeriod signalPeriod h))
     \<and> length h \<le> signal_ref (fst (calculateMACD_heap prices fastPeriod slowPeriod signalPeriod h))
     \<and> length h \<le> histogram_ref (fst (calculateMACD_heap prices fastPeriod slowPeriod signalPeriod h))
     \<and> snd (calculateMACD_heap prices fastPeriod slowPeriod signalPeriod h)
           ! macd_ref (fst (calculateMACD_heap prices fastPeriod slowPeriod signalPeriod h))
         = macd (calculateMACD (h ! prices) fastPeriod slowPeriod signalPeriod)
     \<and> snd (calculateMACD_heap prices fastPeriod slowPeriod signalPeriod h)
           ! signal_ref (fst (calculateMACD_heap prices fastPeriod slowPeriod signalPeriod h))
         = signal (calculateMACD (h ! prices) fastPeriod slowPeriod signalPeriod)
     \<and> snd (calculateMACD_heap prices fastPeriod slowPeriod signalPeriod h)
           ! histogram_ref (fst (calculateMACD_heap prices fastPeriod slowPeriod signalPeriod h))
         = histogram (calculateMACD (h ! prices) fastPeriod slowPeriod signalPeriod)
     \<and> leaves_unchanged h (snd (calculateBollingerBands_heap prices period stdDev h))
     \<and> length h \<le> upper_ref (fst (calculateBollingerBands_heap prices period stdDev h))
     \<and> length h \<le> middle_ref (fst (calculateBollingerBands_heap prices period stdDev h))
     \<and> length h \<le> lower_ref (fst (calculateBollingerBands_heap prices period stdDev h))
     \<and> snd (calculateBollingerBands_heap prices period stdDev h)
           ! upper_ref (fst (calculateBollingerBands_heap prices period stdDev h))
         = upper (calculateBollingerBands (h ! prices) period stdDev)
     \<and> snd (calculateBollingerBands_heap prices period stdDev h)
           ! middle_ref (fst (calculateBollingerBands_heap prices period stdDev h))
         = middle (calculateBollingerBands (h ! prices) period stdDev)
     \<and> snd (calculateBollingerBands_heap prices period stdDev h)
           ! lower_ref (fst (calculateBollingerBands_heap prices period stdDev h))
         = lower (calculateBollingerBands (h ! prices) period stdDev))"
proof (intro conjI impI)
  assume r: "returns < length hr"
  note v = calculateVaR_heap_eq[OF r, of confidence]
  note c = calculateCVaR_heap_eq[OF r, of confidence]
  show "leaves_unchanged hr (snd (calculateVaR_heap returns confidence hr))"
    unfolding v by (simp add: leaves_unchanged_append leaves_unchanged_refl)
  show "snd (calculateVaR_heap returns confidence hr) ! returns = hr ! returns"
    unfolding v using r by (simp add: nth_append)
  show "fst (calculateVaR_heap returns confidence hr) = calculateVaR (hr ! returns) confidence"
    unfolding v by simp
  show "leaves_unchanged hr (snd (calculateCVaR_heap returns confidence hr))"
    unfolding c by (simp add: leaves_unchanged_append leaves_unchanged_refl)
  show "snd (calculateCVaR_heap returns confidence hr) ! returns = hr ! returns"
    unfolding c using r by (simp add: nth_append)
  show "fst (calculateCVaR_heap returns confidence hr) = calculateCVaR (hr ! returns) confidence"
    unfolding c by simp
next
  assume a: "prices < length h \<and> prices2 < length h"
  then have p: "prices < length h" and p2: "prices2 < length h" by simp_all
  show "leaves_unchanged h (snd (calculateMaxDrawdown_heap prices h))"
    by (simp add: calculateMaxDrawdown_heap_eq leaves_unchanged_refl)
  show "fst (calculateMaxDrawdown_heap prices h) = calculateMaxDrawdown (h ! prices)"
    by (simp add: calculateMaxDrawdown_heap_eq)
  show "leaves_unchanged h (snd (calculateSharpeRatio_heap prices riskFreeRate h))"
    by (simp add: calculateSharpeRatio_heap_eq leaves_unchanged_refl)
  show "fst (calculateSharpeRatio_heap prices riskFreeRate h)
         = calculateSharpeRatio (h ! prices) riskFreeRate"
    by (simp add: calculateSharpeRatio_heap_eq)
  note co = calculateCorrelation_heap_eq[OF p p2]
  show "leaves_unchanged h (snd (calculateCorrelation_heap prices prices2 h))"
    unfolding co by (simp add: leaves_unchanged_append leaves_unchanged_refl)
  show "fst (calculateCorrelation_heap prices prices2 h)
         = calculateCorrelation (h ! prices) (h ! prices2)"
    unfolding co by simp
  note rs = calculateRSI_heap_eq[OF p, of period]
  show "leaves_unchanged h (snd (calculateRSI_heap prices period h))"
    unfolding rs by (simp add: leaves_unchanged_append split: prod.splits)
  show "length h \<le> fst (calculateRSI_heap prices period h)"
    unfolding rs by (simp split: prod.splits)
  show "snd (calculateRSI_heap prices period h) ! fst (calculateRSI_heap prices period h)
         = calculateRSI (h ! prices) period"
    unfolding rs by (simp add: calculateRSI_def nth_append split: prod.splits)
  note e = calculateEMA_heap_eq[OF p, of period]
  show "leaves_unchanged h (snd (calculateEMA_heap prices period h))"
    unfolding e by (simp add: leaves_unchanged_append)
  show "length h \<le> fst (calculateEMA_heap prices period h)"
    unfolding e by simp
  show "snd (calculateEMA_heap prices period h) ! fst (calculateEMA_heap prices period h)
         = calculateEMA (h ! prices) period"
    unfolding e by simp
  note m = calculateMACD_heap_eq[OF p, of fastPeriod slowPeriod signalPeriod]
  show "leaves_unchanged h (snd (calculateMACD_heap prices fastPeriod slowPeriod signalPeriod h))"
    unfolding m by (simp add: leaves_unchanged_append)
  show "length h \<le> macd_ref (fst (calculateMACD_heap prices fastPeriod slowPeriod signalPeriod h))"
    unfolding m by simp
  show "length h \<le> signal_ref (fst (calculateMACD_heap prices fastPeriod slowPeriod signalPeriod h))"
    unfolding m by simp
  show "length h \<le> histogram_ref (fst (calculateMACD_heap prices fastPeriod slowPeriod signalPeriod h))"
    unfolding m by simp
  show "snd (calculateMACD_heap prices fastPeriod slowPeriod signalPeriod h)
           ! macd_ref (fst (calculateMACD_heap prices fastPeriod slowPeriod signalPeriod h))
         = macd (calculateMACD (h ! prices) fastPeriod slowPeriod signalPeriod)"
    unfolding m by (simp add: nth_append calculateMACD_def)
  show "snd (calculateMACD_heap prices fastPeriod slowPeriod signalPeriod h)
           ! signal_ref (fst (calculateMACD_heap prices fastPeriod slowPeriod signalPeriod h))
         = signal (calculateMACD (h ! prices) fastPeriod slowPeriod signalPeriod)"
    unfolding m by (simp add: nth_append calculateMACD_def)
  show "snd (calculateMACD_heap prices fastPeriod slowPeriod signalPeriod h)
           ! histogram_ref (fst (calculateMACD_heap prices fastPeriod slowPeriod signalPeriod h))
         = histogram (calculateMACD (h ! prices) fastPeriod slowPeriod signalPeriod)"
    unfolding m by (simp add: nth_append calculateMACD_def)
  note b = calculateBollingerBands_heap_eq[OF p, of period stdDev]
  show "leaves_unchanged h (snd (calculateBollingerBands_heap prices period stdDev h))"
    unfolding b by (simp add: leaves_unchanged_append)
  show "length h \<le> upper_ref (fst (calculateBollingerBands_heap prices period stdDev h))"
    unfolding b by simp
  show "length h \<le> middle_ref (fst (calculateBollingerBands_heap prices period stdDev h))"
    unfolding b by simp
  show "length h \<le> lower_ref (fst (calculateBollingerBands_heap prices period stdDev h))"
    unfolding b by simp
  show "snd (calculateBollingerBands_heap prices period stdDev h)
           ! upper_ref (fst (calculateBollingerBands_heap prices period stdDev h))
         = upper (calculateBollingerBands (h ! prices) period stdDev)"
    unfolding b by (simp add: nth_append calculateBollingerBands_def)
  show "snd (calculateBollingerBands_heap prices period stdDev h)
           ! middle_ref (fst (calculateBollingerBands_heap prices period stdDev h))
         = middle (calculateBollingerBands (h ! prices) period stdDev)"
    unfolding b by (simp add: nth_append calculateBollingerBands_def)
  show "snd (calculateBollingerBands_heap prices period stdDev h)
           ! lower_ref (fst (calculateBollingerBands_heap prices period stdDev h))
         = lower (calculateBollingerBands (h ! prices) period stdDev)"
    unfolding b by (simp add: nth_append calculateBollingerBands_def)
qed

theorem numeric_routines_stateless_witness:
  "(0::nat) < length [[3, 1, 2, 0::real]]
   \<and> snd (calculateVaR_heap 0 (1 / 2) [[3, 1, 2, 0]]) ! 0 = [3, 1, 2, 0]
   \<and> snd (calculateCVaR_heap 0 (1 / 2) [[3, 1, 2, 0]]) ! 0 = [3, 1, 2, 0]
   \<and> fst (calculateVaR_heap 0 (1 / 2) [[3, 1, 2, 0]]) = calculateVaR [3, 1, 2, 0] (1 / 2)
   \<and> (0::nat) < length [[Num 1, Num 2, Num 4], [Num 1, Num 4, Num 8]]
   \<and> (1::nat) < length [[Num 1, Num 2, Num 4], [Num 1, Num 4, Num 8]]
   \<and> leaves_unchanged [[Num 1, Num 2, Num 4], [Num 1, Num 4, Num 8]]
         (snd (calculateRSI_heap 0 1 [[Num 1, Num 2, Num 4], [Num 1, Num 4, Num 8]]))
   \<and> leaves_unchanged [[Num 1, Num 2, Num 4], [Num 1, Num 4, Num 8]]
         (snd (calculateMACD_heap 0 1 3 1 [[Num 1, Num 2, Num 4], [Num 1, Num 4, Num 8]]))
   \<and> leaves_unchanged [[Num 1, Num 2, Num 4], [Num 1, Num 4, Num 8]]
         (snd (calculateBollingerBands_heap 0 1 2 [[Num 1, Num 2, Num 4], [Num 1, Num 4, Num 8]]))
   \<and> fst (calculateCorrelation_heap 0 1 [[Num 1, Num 2, Num 4], [Num 1, Num 4, Num 8]])
       = calculateCorrelation [Num 1, Num 2, Num 4] [Num 1, Num 4, Num 8]
   \<and> snd (calculateEMA_heap 0 1 [[Num 1, Num 2, Num 4], [Num 1, Num 4, Num 8]])
         ! fst (calculateEMA_heap 0 1 [[Num 1, Num 2, Num 4], [Num 1, Num 4, Num 8]])
       = calculateEMA [Num 1, Num 2, Num 4] 1"
proof -
  let ?hr = "[[3, 1, 2, 0::real]]"
  let ?h = "[[Num 1, Num 2, Num 4], [Num 1, Num 4, Num 8]]"
  note t = numeric_routines_stateless[of 0 ?hr "1 / 2" 0 ?h 1 0 1 1 3 1 2]
  have h1: "(0::nat) < length ?hr" by simp
  have h2: "(0::nat) < length ?h \<and> (1::nat) < length ?h" by simp
  from t h1 have a:
    "snd (calculateVaR_heap 0 (1 / 2) ?hr) ! 0 = ?hr ! 0"
    "snd (calculateCVaR_heap 0 (1 / 2) ?hr) ! 0 = ?hr ! 0"
    "fst (calculateVaR_heap 0 (1 / 2) ?hr) = calculateVaR (?hr ! 0) (1 / 2)"
    by blast+
  from t h2 have b:
    "leaves_unchanged ?h (snd (calculateRSI_heap 0 1 ?h))"
    "leaves_unchanged ?h (snd (calculateMACD_heap 0 1 3 1 ?h))"
    "leaves_unchanged ?h (snd (calculateBollingerBands_heap 0 1 2 ?h))"
    "fst (calculateCorrelation_heap 0 1 ?h) = calculateCorrelation (?h ! 0) (?h ! 1)"
    "snd (calculateEMA_heap 0 1 ?h) ! fst (calculateEMA_heap 0 1 ?h) = calculateEMA (?h ! 0) 1"
    by blast+
  show ?thesis using a b by simp
qed

text \<open>The store after \<open>calculateVaR\<close>: the argument keeps its order, the sorted copy is a
  new array.\<close>

lemma calculateVaR_heap_example:
  "calculateVaR_heap 0 (1 / 2) [[3, 1, 2]] = (Num 2, [[3, 1, 2], [1, 2, 3]])"
  by code_simp


end
